theory Spec2Isabelle
  imports
    Main
    "HOL-Library.Sublist"
    "HOL-Library.List_Lexorder"
    "HOL-Library.Char_ord"
    "HOL-Library.Finite_Map"
    "HOL-Library.Multiset"
begin

section \<open>Strings\<close>

text \<open>
  A Python \<open>str\<close> is modelled as a \<open>string\<close> whose characters are code points below 256.
  The order on strings is the lexicographic order on code points, which is the order of
  Python's \<open>sorted\<close>.
\<close>

definition endswith :: "string \<Rightarrow> string \<Rightarrow> bool" where
  "endswith s suf = suffix suf s"

definition startswith :: "string \<Rightarrow> string \<Rightarrow> bool" where
  "startswith s pre = prefix pre s"

text \<open>\<open>str.lower\<close> on the ASCII letters; no other code point lowers to an ASCII character
  that occurs in \<open>.pdf\<close>.\<close>

definition lower_char :: "char \<Rightarrow> char" where
  "lower_char c =
     (case map_of (zip ''ABCDEFGHIJKLMNOPQRSTUVWXYZ'' ''abcdefghijklmnopqrstuvwxyz'') c of
        Some d \<Rightarrow> d
      | None \<Rightarrow> c)"

definition lower :: "string \<Rightarrow> string" where
  "lower s = map lower_char s"

text \<open>\<open>str.isspace\<close> on code points below 256.\<close>

definition is_space :: "char \<Rightarrow> bool" where
  "is_space c = (of_char c \<in> {9, 10, 11, 12, 13, 28, 29, 30, 31, 32, 133, 160 :: nat})"

definition strip :: "string \<Rightarrow> string" where
  "strip s = rev (dropWhile is_space (rev (dropWhile is_space s)))"

abbreviation LF :: char where "LF \<equiv> CHR 0x0A"
abbreviation CR :: char where "CR \<equiv> CHR 0x0D"

section \<open>URLs\<close>

text \<open>The fields of \<open>urllib.parse.ParseResult\<close> that the program reads.\<close>

record ParseResult =
  scheme :: string
  netloc :: string
  path :: string
  query :: string
  fragment :: string

text \<open>The response of \<open>requests.get\<close>, as far as the program reads it.\<close>

record Response =
  status_code :: int
  content_disposition :: "string option"
  text_of :: string
  iter_content :: "string list"

text \<open>
  The libraries and the network the program calls. A result \<open>None\<close> is a raised exception:
  \<open>ValueError\<close> for \<open>urlparse\<close> and \<open>urljoin\<close>, a \<open>requests.RequestException\<close> for
  \<open>http_get\<close>. \<open>find_all_a\<close> is \<open>soup.find_all('a', href=True)\<close> mapped to the \<open>href\<close>
  values; \<open>select_pdf_downloads\<close> is \<open>soup.select("span.pdf-downloads")\<close>, each container
  given by the \<open>href\<close> and the class list of its anchors; \<open>findall_filename\<close> is
  \<open>re.findall('filename="(.+)"', _)\<close>; \<open>md5_hexdigest\<close> is \<open>hashlib.md5(_).hexdigest()\<close>.
\<close>

record env =
  urlparse :: "string \<Rightarrow> ParseResult option"
  urljoin :: "string \<Rightarrow> string \<Rightarrow> string option"
  http_get :: "string \<Rightarrow> Response option"
  find_all_a :: "string \<Rightarrow> string list"
  select_pdf_downloads :: "string \<Rightarrow> (string \<times> string list) list list"
  findall_filename :: "string \<Rightarrow> string list"
  md5_hexdigest :: "string \<Rightarrow> string"

section \<open>The traversal: \<open>url-extractor/main.py\<close>\<close>

record WebCrawler =
  base_url :: string
  output_file :: string
  max_depth :: int
  max_pages :: int
  visited_urls :: "string set"
  all_urls :: "string set"
  domain :: string

text \<open>\<open>WebCrawler.__init__\<close>: \<open>None\<close> is the exception it re-raises.\<close>

definition WebCrawler_init :: "env \<Rightarrow> string \<Rightarrow> string \<Rightarrow> int \<Rightarrow> int \<Rightarrow> WebCrawler option" where
  "WebCrawler_init e base out md mp =
     (case urlparse e base of
        None \<Rightarrow> None
      | Some parsed \<Rightarrow>
          if netloc parsed = [] then None
          else Some \<lparr>base_url = base, output_file = out, max_depth = md, max_pages = mp,
                      visited_urls = {}, all_urls = {}, domain = netloc parsed\<rparr>)"

definition filtered_extensions :: "string list" where
  "filtered_extensions = [''.pdf'', ''.jpg'', ''.png'', ''.gif'', ''.css'', ''.js'']"

definition is_valid_url :: "env \<Rightarrow> WebCrawler \<Rightarrow> string \<Rightarrow> bool option" where
  "is_valid_url e self url =
     (case urlparse e url of
        None \<Rightarrow> None
      | Some parsed \<Rightarrow>
          Some (netloc parsed = domain self \<and>
                scheme parsed \<in> set [''http'', ''https''] \<and>
                \<not> list_ex (\<lambda>ext. endswith url ext) filtered_extensions))"

subsection \<open>\<open>extract_urls\<close>, one access to the shared sets at a time\<close>

text \<open>
  \<open>crawl\<close> runs \<open>extract_urls\<close> on up to ten threads that share \<open>visited_urls\<close> and
  \<open>all_urls\<close>. A \<open>task\<close> is the point a call of \<open>extract_urls(url, depth)\<close> has reached:
  \<^item> \<open>Checked url\<close>: \<open>url in self.visited_urls\<close> was false (line 42); lines 43 and 44 come
    next;
  \<^item> \<open>Fetching url\<close>: the guard was false; the request of line 49 is under way;
  \<^item> \<open>Scanning url hrefs page_urls\<close>: in the loop of line 57, with the anchors still to
    come;
  \<^item> \<open>Adding url full_url hrefs page_urls\<close>: the test of line 60 was true; lines 61 and 62
    come next.
  A step reads or writes a shared set once. What a call gives back is its set of URLs, or
  an exception that is not a \<open>RequestException\<close> (the \<open>ValueError\<close> of \<open>urljoin\<close> or
  \<open>urlparse\<close>), which \<open>crawl\<close> logs at line 86.
\<close>

datatype task =
    Checked string
  | Fetching string
  | Scanning string "string list" "string set"
  | Adding string string "string list" "string set"

datatype outcome = Continue task | Return "string set" | Raise

text \<open>Lines 49, 50, 54 and 57: \<open>None\<close> is a \<open>RequestException\<close>, which \<open>raise_for_status\<close>
  raises for a status from 400 to 599.\<close>

definition fetch_links :: "env \<Rightarrow> string \<Rightarrow> string list option" where
  "fetch_links e url =
     (case http_get e url of
        None \<Rightarrow> None
      | Some response \<Rightarrow>
          if 400 \<le> status_code response \<and> status_code response < 600 then None
          else Some (find_all_a e (text_of response)))"

fun task_step :: "env \<Rightarrow> WebCrawler \<Rightarrow> int \<Rightarrow> task \<Rightarrow> WebCrawler \<times> outcome" where
  "task_step e self depth (Checked url) =
     (if depth > max_depth self \<or> int (card (visited_urls self)) \<ge> max_pages self
      then (self, Return {})
      else (self, Continue (Fetching url)))"
| "task_step e self depth (Fetching url) =
     (case fetch_links e url of
        None \<Rightarrow> (self, Return {})
      | Some hrefs \<Rightarrow>
          (self\<lparr>visited_urls := insert url (visited_urls self)\<rparr>, Continue (Scanning url hrefs {})))"
| "task_step e self depth (Scanning url [] page_urls) = (self, Return page_urls)"
| "task_step e self depth (Scanning url (href # hrefs) page_urls) =
     (case urljoin e url href of
        None \<Rightarrow> (self, Raise)
      | Some full_url \<Rightarrow>
          (case is_valid_url e self full_url of
             None \<Rightarrow> (self, Raise)
           | Some valid \<Rightarrow>
               if valid \<and> full_url \<notin> all_urls self
               then (self, Continue (Adding url full_url hrefs page_urls))
               else (self, Continue (Scanning url hrefs page_urls))))"
| "task_step e self depth (Adding url full_url hrefs page_urls) =
     (self\<lparr>all_urls := insert full_url (all_urls self)\<rparr>,
      Continue (Scanning url hrefs (insert full_url page_urls)))"

subsection \<open>\<open>crawl\<close>\<close>

text \<open>
  The state of a call of \<open>crawl\<close>: the crawler, where the main thread is (\<open>AtFor\<close>: at
  the head of the loop of line 72; \<open>InPool\<close>: inside the \<open>with\<close> of line 75; \<open>Done\<close>:
  returned), the loop variable, \<open>current_urls\<close>, the calls submitted and not yet started,
  the calls running, \<open>next_urls\<close>, and the content of the output file (\<open>None\<close>: no such
  file).
\<close>

datatype pc = AtFor | InPool | Done

record crawl_state =
  crawler :: WebCrawler
  pc :: pc
  depth :: int
  current_urls :: "string set"
  queue :: "string set"
  running :: "task multiset"
  next_urls :: "string set"
  disk :: "string option"

text \<open>Lines 96 to 98: the file is opened with \<open>'w'\<close>, so what it held is gone.\<close>

definition write_urls :: "string set \<Rightarrow> string" where
  "write_urls urls = concat (map (\<lambda>url. url @ [LF]) (sorted_list_of_set urls))"

definition finish :: "crawl_state \<Rightarrow> crawl_state" where
  "finish s = s\<lparr>pc := Done, disk := Some (write_urls (all_urls (crawler s)))\<rparr>"

definition crawl_start :: "WebCrawler \<Rightarrow> string option \<Rightarrow> crawl_state" where
  "crawl_start self old_file =
     \<lparr>crawler = self, pc = AtFor, depth = 0, current_urls = {base_url self}, queue = {},
      running = {#}, next_urls = {}, disk = old_file\<rparr>"

text \<open>
  What happens next is the scheduler's choice: the main thread moves (\<open>Main\<close>), a thread of
  the pool takes a submitted call and evaluates the first test of its guard
  (\<open>Start url\<close>), or a running call takes its next step (\<open>Step task\<close>). \<open>None\<close>: the event
  cannot happen in this state. The pool has \<open>max_workers=10\<close> threads.
\<close>

datatype event = Main | Start string | Step task

definition main_step :: "crawl_state \<Rightarrow> crawl_state option" where
  "main_step s =
     (case pc s of
        AtFor \<Rightarrow>
          if depth s < max_depth (crawler s)
          then Some (s\<lparr>pc := InPool, queue := current_urls s, running := {#}, next_urls := {}\<rparr>)
          else Some (finish s)
      | InPool \<Rightarrow>
          if queue s = {} \<and> running s = {#}
          then
            (if next_urls s = {} then Some (finish (s\<lparr>current_urls := next_urls s\<rparr>))
             else Some (s\<lparr>current_urls := next_urls s, depth := depth s + 1, pc := AtFor\<rparr>))
          else None
      | Done \<Rightarrow> None)"

definition start_step :: "string \<Rightarrow> crawl_state \<Rightarrow> crawl_state option" where
  "start_step url s =
     (if pc s = InPool \<and> url \<in> queue s \<and> size (running s) < 10
      then
        (if url \<in> visited_urls (crawler s) then Some (s\<lparr>queue := queue s - {url}\<rparr>)
         else Some (s\<lparr>queue := queue s - {url}, running := add_mset (Checked url) (running s)\<rparr>))
      else None)"

definition worker_step :: "env \<Rightarrow> task \<Rightarrow> crawl_state \<Rightarrow> crawl_state option" where
  "worker_step e t s =
     (if pc s = InPool \<and> t \<in># running s
      then
        (case task_step e (crawler s) (depth s) t of
           (self, Continue t') \<Rightarrow>
             Some (s\<lparr>crawler := self, running := add_mset t' (running s - {#t#})\<rparr>)
         | (self, Return new_urls) \<Rightarrow>
             Some (s\<lparr>crawler := self, running := running s - {#t#},
                     next_urls := next_urls s \<union> new_urls\<rparr>)
         | (self, Raise) \<Rightarrow> Some (s\<lparr>crawler := self, running := running s - {#t#}\<rparr>))
      else None)"

fun step :: "env \<Rightarrow> event \<Rightarrow> crawl_state \<Rightarrow> crawl_state option" where
  "step e Main s = main_step s"
| "step e (Start url) s = start_step url s"
| "step e (Step t) s = worker_step e t s"

fun run :: "env \<Rightarrow> event list \<Rightarrow> crawl_state \<Rightarrow> crawl_state option" where
  "run e [] s = Some s"
| "run e (ev # evs) s = (case step e ev s of None \<Rightarrow> None | Some s' \<Rightarrow> run e evs s')"

section \<open>Files and paths\<close>

text \<open>
  Reading a file opened in text mode with universal newlines: a line ends at \<open>\n\<close>, at
  \<open>\r\<close> or at \<open>\r\n\<close>, each read as \<open>\n\<close>; a last line without a terminator is a line too.
  The flag says that the character before was \<open>\r\<close>, the second argument is the line read
  so far.
\<close>

fun readlines_from :: "bool \<Rightarrow> string \<Rightarrow> string \<Rightarrow> string list" where
  "readlines_from after_cr cur [] = (if cur = [] then [] else [cur])"
| "readlines_from after_cr cur (c # cs) =
     (if c = LF then
        (if after_cr then readlines_from False cur cs
         else (cur @ [LF]) # readlines_from False [] cs)
      else if c = CR then (cur @ [LF]) # readlines_from True [] cs
      else readlines_from False (cur @ [c]) cs)"

definition readlines :: "string \<Rightarrow> string list" where
  "readlines content = readlines_from False [] content"

text \<open>\<open>os.path.join\<close> and \<open>os.path.basename\<close> of \<open>posixpath\<close>.\<close>

definition path_join :: "string \<Rightarrow> string \<Rightarrow> string" where
  "path_join a b =
     (if b \<noteq> [] \<and> hd b = CHR ''/'' then b
      else if a = [] \<or> last a = CHR ''/'' then a @ b
      else a @ ''/'' @ b)"

definition basename :: "string \<Rightarrow> string" where
  "basename p = rev (takeWhile (\<lambda>c. c \<noteq> CHR ''/'') (rev p))"

text \<open>\<open>str(counter)\<close> for a counter that is never negative.\<close>

definition digit_char :: "nat \<Rightarrow> char" where
  "digit_char d = ''0123456789'' ! d"

fun str_nat :: "nat \<Rightarrow> string" where
  "str_nat n = (if n < 10 then [digit_char n] else str_nat (n div 10) @ [digit_char (n mod 10)])"

declare str_nat.simps [simp del]

text \<open>\<open>sub in s\<close>, and \<open>s.replace('.pdf', '')\<close>.\<close>

fun contains :: "string \<Rightarrow> string \<Rightarrow> bool" where
  "contains [] sub = (sub = [])"
| "contains (c # cs) sub = (startswith (c # cs) sub \<or> contains cs sub)"

fun replace_pdf :: "string \<Rightarrow> string" where
  "replace_pdf [] = []"
| "replace_pdf (c # cs) =
     (if startswith (c # cs) ''.pdf'' then replace_pdf (drop 3 cs) else c # replace_pdf cs)"

section \<open>The acquirer: \<open>research/PdfExtractor.py\<close>\<close>

text \<open>
  The fields of a \<open>PDFScraper\<close>, and the files on disk as a finite map from a path to the
  content of the file. A file operation on this map succeeds: missing directories and
  permissions are not modelled. Logging is left out.
\<close>

record PDFScraper =
  output_dir :: string
  history_file :: string
  downloaded_urls :: "string set"
  downloaded_hashes :: "string set"
  files :: "(string, string) fmap"

definition PDFScraper_init :: "(string, string) fmap \<Rightarrow> string \<Rightarrow> PDFScraper" where
  "PDFScraper_init fs out =
     (let hist = path_join out ''download_history.txt'' in
      \<lparr>output_dir = out,
       history_file = hist,
       downloaded_urls =
         (case fmlookup fs hist of
            None \<Rightarrow> {}
          | Some content \<Rightarrow> set (map strip (readlines content))),
       downloaded_hashes = {},
       files = fs\<rparr>)"

definition save_url_to_history :: "PDFScraper \<Rightarrow> string \<Rightarrow> PDFScraper" where
  "save_url_to_history self url =
     self\<lparr>files :=
       fmupd (history_file self)
         ((case fmlookup (files self) (history_file self) of None \<Rightarrow> [] | Some content \<Rightarrow> content)
            @ url @ [LF])
         (files self)\<rparr>"

text \<open>Lines 59 to 72 of \<open>download_pdf\<close>: the filename when the caller gave none.
  \<open>None\<close> is the \<open>ValueError\<close> of \<open>urlparse\<close>.\<close>

definition default_filename :: "env \<Rightarrow> string \<Rightarrow> Response \<Rightarrow> string option \<Rightarrow> string option" where
  "default_filename e url response filename =
     (if filename \<noteq> None \<and> filename \<noteq> Some [] then filename
      else
        let filename1 =
          (case content_disposition response of
             None \<Rightarrow> filename
           | Some header \<Rightarrow>
               (case findall_filename e header of [] \<Rightarrow> filename | m # matches \<Rightarrow> Some m))
        in
        if filename1 \<noteq> None \<and> filename1 \<noteq> Some [] then filename1
        else
          (case urlparse e url of
             None \<Rightarrow> None
           | Some parsed_url \<Rightarrow>
               let filename2 = basename (path parsed_url) in
               if filename2 = [] \<or> \<not> endswith (lower filename2) ''.pdf''
               then Some (md5_hexdigest e url @ ''.pdf'')
               else Some filename2))"

text \<open>Lines 80 to 85: the loop that looks for a name no file has.\<close>

definition numbered :: "string \<Rightarrow> nat \<Rightarrow> string" where
  "numbered original_filename counter = original_filename @ ''_'' @ str_nat counter @ ''.pdf''"

lemma digit_char_inj: "a < 10 \<Longrightarrow> b < 10 \<Longrightarrow> digit_char a = digit_char b \<Longrightarrow> a = b"
proof -
  assume "a < 10" "b < 10" "digit_char a = digit_char b"
  moreover have "distinct ''0123456789''" by simp
  moreover have "length ''0123456789'' = 10" by simp
  ultimately show ?thesis
    unfolding digit_char_def by (metis nth_eq_iff_index_eq)
qed

lemma str_nat_small: "n < 10 \<Longrightarrow> str_nat n = [digit_char n]"
  by (subst str_nat.simps) simp

lemma str_nat_large: "\<not> n < 10 \<Longrightarrow> str_nat n = str_nat (n div 10) @ [digit_char (n mod 10)]"
  by (subst str_nat.simps) simp

lemma str_nat_nonempty: "str_nat n \<noteq> []"
  by (subst str_nat.simps) simp

lemma str_nat_inj: "str_nat m = str_nat n \<Longrightarrow> m = n"
proof (induction m arbitrary: n rule: str_nat.induct)
  case (1 m)
  show ?case
  proof (cases "m < 10")
    case True
    note m = str_nat_small[OF True]
    show ?thesis
    proof (cases "n < 10")
      case n: True
      note str_nat_small[OF n]
      with m "1.prems" True n show ?thesis by (auto dest: digit_char_inj)
    next
      case False
      note str_nat_large[OF False]
      with m "1.prems" str_nat_nonempty[of "n div 10"] show ?thesis
        by (cases "str_nat (n div 10)") auto
    qed
  next
    case False
    note m = str_nat_large[OF False]
    show ?thesis
    proof (cases "n < 10")
      case True
      note str_nat_small[OF True]
      with m "1.prems" str_nat_nonempty[of "m div 10"] show ?thesis
        by (cases "str_nat (m div 10)") auto
    next
      case n: False
      note str_nat_large[OF n]
      with m "1.prems" have "str_nat (m div 10) = str_nat (n div 10)"
        and d: "digit_char (m mod 10) = digit_char (n mod 10)" by auto
      with "1.IH"[OF False] have q: "m div 10 = n div 10" by blast
      have "m mod 10 = n mod 10" using d by (intro digit_char_inj) auto
      with q show ?thesis by (metis div_mult_mod_eq)
    qed
  qed
qed

lemma path_join_append: "x \<noteq> [] \<Longrightarrow> path_join dir (x @ y) = path_join dir x @ y"
  by (simp add: path_join_def)

lemma path_join_numbered:
  "path_join dir (numbered orig k) = path_join dir (orig @ ''_'') @ str_nat k @ ''.pdf''"
  using path_join_append[of "orig @ ''_''" dir "str_nat k @ ''.pdf''"] by (simp add: numbered_def)

lemma path_join_numbered_inj:
  "path_join dir (numbered orig j) = path_join dir (numbered orig k) \<Longrightarrow> j = k"
  by (simp add: path_join_numbered str_nat_inj)

lemma finite_taken: "finite {k. path_join dir (numbered orig k) \<in> fmdom' fs}"
proof -
  have "inj (\<lambda>k. path_join dir (numbered orig k))"
    by (rule injI) (rule path_join_numbered_inj)
  then have "finite ((\<lambda>k. path_join dir (numbered orig k)) -` fmdom' fs)"
    by (intro finite_vimageI) simp_all
  then show ?thesis by (simp add: vimage_def)
qed

lemma card_from_taken:
  fixes P :: "nat \<Rightarrow> bool"
  assumes "finite {k. P k}" and "P c"
  shows "card {k. c \<le> k \<and> P k} = Suc (card {k. Suc c \<le> k \<and> P k})"
proof -
  have "{k. c \<le> k \<and> P k} = insert c {k. Suc c \<le> k \<and> P k}"
    using assms(2) by (auto simp: le_Suc_eq)
  moreover have "finite {k. Suc c \<le> k \<and> P k}"
    by (rule finite_subset[OF _ assms(1)]) auto
  ultimately show ?thesis by simp
qed

lemma card_from_free:
  fixes P :: "nat \<Rightarrow> bool"
  assumes "\<not> P c"
  shows "{k. c \<le> k \<and> P k} = {k. Suc c \<le> k \<and> P k}"
proof -
  have "c \<le> k \<and> P k \<longleftrightarrow> Suc c \<le> k \<and> P k" for k
    using assms by (cases "k = c") auto
  then show ?thesis by simp
qed

function unused_filename ::
  "(string, string) fmap \<Rightarrow> string \<Rightarrow> string \<Rightarrow> string \<Rightarrow> nat \<Rightarrow> string" where
  "unused_filename fs dir original_filename filename counter =
     (if path_join dir filename \<in> fmdom' fs
      then unused_filename fs dir original_filename (numbered original_filename counter) (counter + 1)
      else filename)"
  by pat_completeness auto
termination
proof (relation "measure (\<lambda>(fs, dir, orig, filename, counter).
          2 * card {k. counter \<le> k \<and> path_join dir (numbered orig k) \<in> fmdom' fs}
          + (if path_join dir filename \<in> fmdom' fs then 1 else 0))", goal_cases)
  case 1
  show ?case by simp
next
  case (2 fs dir orig filename counter)
  define P where "P k \<longleftrightarrow> path_join dir (numbered orig k) \<in> fmdom' fs" for k
  have fin: "finite {k. P k}"
    unfolding P_def by (rule finite_taken)
  have "2 * card {k. Suc counter \<le> k \<and> P k} + (if P counter then 1 else 0)
          < 2 * card {k. counter \<le> k \<and> P k} + 1"
  proof (cases "P counter")
    case True
    from card_from_taken[of P counter, OF fin True] show ?thesis by simp
  next
    case False
    from False card_from_free[of P counter, OF False] show ?thesis by simp
  qed
  with 2 show ?case by (simp add: P_def)
qed

declare unused_filename.simps [simp del]

text \<open>Lines 74 to 85: the extension, then the name no file has.\<close>

definition with_pdf_extension :: "string \<Rightarrow> string" where
  "with_pdf_extension filename =
     (if \<not> endswith (lower filename) ''.pdf'' then filename @ ''.pdf'' else filename)"

definition resolved_filename :: "PDFScraper \<Rightarrow> string \<Rightarrow> string" where
  "resolved_filename self filename1 =
     (let filename = with_pdf_extension filename1
      in unused_filename (files self) (output_dir self) (replace_pdf filename) filename 1)"

text \<open>Lines 88 to 91: the bytes written, the chunks that are not empty.\<close>

definition written_bytes :: "Response \<Rightarrow> string" where
  "written_bytes response = concat (filter (\<lambda>chunk. chunk \<noteq> []) (iter_content response))"

definition calculate_file_hash :: "env \<Rightarrow> PDFScraper \<Rightarrow> string \<Rightarrow> string option" where
  "calculate_file_hash e self filepath = map_option (md5_hexdigest e) (fmlookup (files self) filepath)"

text \<open>\<open>download_pdf\<close>: the result and the scraper after the call. Every exception inside
  its \<open>try\<close> gives \<open>False\<close>.\<close>

definition download_pdf :: "env \<Rightarrow> PDFScraper \<Rightarrow> string \<Rightarrow> string option \<Rightarrow> bool \<times> PDFScraper" where
  "download_pdf e self url filename0 =
     (if url \<in> downloaded_urls self then (False, self)
      else
        (case http_get e url of
           None \<Rightarrow> (False, self)
         | Some response \<Rightarrow>
             if status_code response \<noteq> 200 then (False, self)
             else
               (case default_filename e url response filename0 of
                  None \<Rightarrow> (False, self)
                | Some filename1 \<Rightarrow>
                    let filename = resolved_filename self filename1;
                        filepath = path_join (output_dir self) filename;
                        written =
                          self\<lparr>files := fmupd filepath (written_bytes response) (files self)\<rparr>
                    in
                    (case calculate_file_hash e written filepath of
                       None \<Rightarrow> (False, written)
                     | Some file_hash \<Rightarrow>
                         if file_hash \<in> downloaded_hashes written
                         then (False, written\<lparr>files := fmdrop filepath (files written)\<rparr>)
                         else
                           (True,
                            save_url_to_history
                              (written\<lparr>downloaded_hashes := insert file_hash (downloaded_hashes written),
                                       downloaded_urls := insert url (downloaded_urls written)\<rparr>)
                              url)))))"

text \<open>\<open>extract_pdf_links\<close>, over the anchors of all containers in document order.\<close>

fun join_pdf_links :: "env \<Rightarrow> string \<Rightarrow> (string \<times> string list) list \<Rightarrow> string list option" where
  "join_pdf_links e base [] = Some []"
| "join_pdf_links e base ((href, classes) # links) =
     (if href \<noteq> [] \<and> (contains (lower href) ''.pdf'' \<or> ''download'' \<in> set classes)
      then
        (case urljoin e base href of
           None \<Rightarrow> None
         | Some full_url \<Rightarrow> map_option (Cons full_url) (join_pdf_links e base links))
      else join_pdf_links e base links)"

definition extract_pdf_links :: "env \<Rightarrow> string \<Rightarrow> string \<Rightarrow> string list option" where
  "extract_pdf_links e html_content base = join_pdf_links e base (concat (select_pdf_downloads e html_content))"

text \<open>The loop of \<open>scrape_page\<close> over the links: the count of downloads and the scraper.\<close>

fun download_each :: "env \<Rightarrow> PDFScraper \<Rightarrow> string list \<Rightarrow> nat \<times> PDFScraper" where
  "download_each e self [] = (0, self)"
| "download_each e self (pdf_url # pdf_links) =
     (case download_pdf e self pdf_url None of
        (ok, self1) \<Rightarrow>
          (case download_each e self1 pdf_links of
             (n, self2) \<Rightarrow> ((if ok then 1 else 0) + n, self2)))"

definition scrape_page :: "env \<Rightarrow> PDFScraper \<Rightarrow> string \<Rightarrow> nat \<times> PDFScraper" where
  "scrape_page e self url =
     (case http_get e url of
        None \<Rightarrow> (0, self)
      | Some response \<Rightarrow>
          if status_code response \<noteq> 200 then (0, self)
          else
            (case extract_pdf_links e (text_of response) url of
               None \<Rightarrow> (0, self)
             | Some pdf_links \<Rightarrow> download_each e self pdf_links))"

fun scrape_multiple_pages :: "env \<Rightarrow> PDFScraper \<Rightarrow> string list \<Rightarrow> nat \<times> PDFScraper" where
  "scrape_multiple_pages e self [] = (0, self)"
| "scrape_multiple_pages e self (url # urls) =
     (case scrape_page e self url of
        (downloaded, self1) \<Rightarrow>
          (case scrape_multiple_pages e self1 urls of
             (total_downloaded, self2) \<Rightarrow> (downloaded + total_downloaded, self2)))"

section \<open>Notions used in the statements about the acquirer\<close>

text \<open>
  These are not code: they name what the theorems below say about it. \<open>wf_scraper\<close> is
  what \<open>__init__\<close> establishes, \<open>history_content\<close> and \<open>loaded_urls\<close> read the history file as
  \<open>__init__\<close> does, \<open>candidates\<close> are the links a run hands to \<open>download_pdf\<close>, and
  \<open>stored\<close> is the scraper after lines 88 to 102 have accepted a document.
\<close>

definition wf_scraper :: "PDFScraper \<Rightarrow> bool" where
  "wf_scraper self \<longleftrightarrow> history_file self = path_join (output_dir self) ''download_history.txt''"

definition terminated :: "string \<Rightarrow> bool" where
  "terminated content \<longleftrightarrow> content = [] \<or> last content = LF \<or> last content = CR"

definition clean_url :: "string \<Rightarrow> bool" where
  "clean_url url \<longleftrightarrow>
     url \<noteq> [] \<and> (\<forall>c\<in>set url. c \<noteq> LF \<and> c \<noteq> CR) \<and> \<not> is_space (hd url) \<and> \<not> is_space (last url)"

definition loaded_urls :: "string \<Rightarrow> string set" where
  "loaded_urls content = set (map strip (readlines content))"

definition history_content :: "PDFScraper \<Rightarrow> string" where
  "history_content self =
     (case fmlookup (files self) (history_file self) of None \<Rightarrow> [] | Some content \<Rightarrow> content)"

definition fetchable :: "env \<Rightarrow> string \<Rightarrow> bool" where
  "fetchable e url \<longleftrightarrow>
     (case http_get e url of
        None \<Rightarrow> False
      | Some response \<Rightarrow> status_code response = 200 \<and> default_filename e url response None \<noteq> None)"

definition digest_of :: "env \<Rightarrow> string \<Rightarrow> string option" where
  "digest_of e url =
     (case http_get e url of
        None \<Rightarrow> None
      | Some response \<Rightarrow>
          if status_code response = 200 then Some (md5_hexdigest e (written_bytes response)) else None)"

definition page_links :: "env \<Rightarrow> string \<Rightarrow> string list" where
  "page_links e url =
     (case http_get e url of
        None \<Rightarrow> []
      | Some response \<Rightarrow>
          if status_code response \<noteq> 200 then []
          else (case extract_pdf_links e (text_of response) url of None \<Rightarrow> [] | Some links \<Rightarrow> links))"

definition candidates :: "env \<Rightarrow> string list \<Rightarrow> string set" where
  "candidates e urls = (\<Union>url\<in>set urls. set (page_links e url))"

definition stored :: "env \<Rightarrow> PDFScraper \<Rightarrow> string \<Rightarrow> Response \<Rightarrow> string \<Rightarrow> PDFScraper" where
  "stored e self url response filename1 =
     self\<lparr>files :=
            fmupd (history_file self) (history_content self @ url @ [LF])
              (fmupd (path_join (output_dir self) (resolved_filename self filename1))
                 (written_bytes response) (files self)),
          downloaded_hashes := insert (md5_hexdigest e (written_bytes response)) (downloaded_hashes self),
          downloaded_urls := insert url (downloaded_urls self)\<rparr>"

definition keeps :: "PDFScraper \<Rightarrow> PDFScraper \<Rightarrow> bool" where
  "keeps self self' \<longleftrightarrow>
     output_dir self' = output_dir self \<and> history_file self' = history_file self \<and>
     (\<forall>p c. fmlookup (files self) p = Some c \<longrightarrow>
        (if p = history_file self then (\<exists>more. fmlookup (files self') p = Some (c @ more))
         else fmlookup (files self') p = Some c))"

definition run_inv :: "env \<Rightarrow> string set \<Rightarrow> PDFScraper \<Rightarrow> bool" where
  "run_inv e C self \<longleftrightarrow>
     wf_scraper self \<and> terminated (history_content self) \<and>
     downloaded_urls self \<subseteq> loaded_urls (history_content self) \<and>
     (\<forall>h\<in>downloaded_hashes self. \<exists>u\<in>downloaded_urls self \<inter> C. digest_of e u = Some h)"

definition distinct_digests :: "env \<Rightarrow> string set \<Rightarrow> bool" where
  "distinct_digests e C \<longleftrightarrow>
     (\<forall>u\<in>C. \<forall>v\<in>C. u \<noteq> v \<longrightarrow> digest_of e u \<noteq> None \<longrightarrow> digest_of e u \<noteq> digest_of e v)"

section \<open>A reference \<open>urlparse\<close> for the examples\<close>

text \<open>
  The splitting steps of \<open>urllib.parse.urlsplit\<close>: scheme, authority, fragment, query. It
  leaves out the removal of whitespace and the \<open>;\<close> parameters of the last path segment,
  and is used on example URLs that have neither. The theorems below hold for every
  \<open>urlparse\<close>.
\<close>

definition is_alpha :: "char \<Rightarrow> bool" where
  "is_alpha c = (c \<in> set ''abcdefghijklmnopqrstuvwxyzABCDEFGHIJKLMNOPQRSTUVWXYZ'')"

definition is_scheme_char :: "char \<Rightarrow> bool" where
  "is_scheme_char c = (is_alpha c \<or> c \<in> set ''0123456789+-.'')"

definition split_scheme :: "string \<Rightarrow> string \<times> string" where
  "split_scheme url =
     (let pre = takeWhile (\<lambda>c. c \<noteq> CHR '':'') url in
      if pre \<noteq> [] \<and> length pre < length url \<and> is_alpha (hd pre) \<and> list_all is_scheme_char pre
      then (lower pre, drop (Suc (length pre)) url)
      else ([], url))"

definition split_netloc :: "string \<Rightarrow> string \<times> string" where
  "split_netloc url =
     (if take 2 url = ''//''
      then (takeWhile (\<lambda>c. c \<notin> set ''/?#'') (drop 2 url),
            dropWhile (\<lambda>c. c \<notin> set ''/?#'') (drop 2 url))
      else ([], url))"

definition urlparse_model :: "string \<Rightarrow> ParseResult option" where
  "urlparse_model url =
     (case split_scheme url of (sch, r1) \<Rightarrow>
      case split_netloc r1 of (loc, r2) \<Rightarrow>
        if (CHR ''['' \<in> set loc) \<noteq> (CHR '']'' \<in> set loc) then None
        else
          let r3 = takeWhile (\<lambda>c. c \<noteq> CHR ''#'') r2;
              frag = drop 1 (dropWhile (\<lambda>c. c \<noteq> CHR ''#'') r2);
              p = takeWhile (\<lambda>c. c \<noteq> CHR ''?'') r3;
              q = drop 1 (dropWhile (\<lambda>c. c \<noteq> CHR ''?'') r3)
          in Some \<lparr>scheme = sch, netloc = loc, path = p, query = q, fragment = frag\<rparr>)"

text \<open>An environment for the examples: every \<open>href\<close> of its pages is an absolute URL, which
  \<open>urljoin\<close> returns as it is, and no page is served.\<close>

definition example_env :: env where
  "example_env =
     \<lparr>urlparse = urlparse_model,
      urljoin = (\<lambda>base href. Some (if href = [] then base else href)),
      http_get = (\<lambda>url. None),
      find_all_a = (\<lambda>html. []),
      select_pdf_downloads = (\<lambda>html. []),
      findall_filename = (\<lambda>s. []),
      md5_hexdigest = (\<lambda>s. s)\<rparr>"

definition example_crawler :: WebCrawler where
  "example_crawler =
     \<lparr>base_url = ''http://example.com/'', output_file = ''./discovered_urls.txt'',
      max_depth = 10, max_pages = 500, visited_urls = {}, all_urls = {},
      domain = ''example.com''\<rparr>"

text \<open>Pages and documents for the examples of the acquirer.\<close>

definition pdf_response :: "string \<Rightarrow> Response" where
  "pdf_response body =
     \<lparr>status_code = 200, content_disposition = None, text_of = [], iter_content = [body]\<rparr>"

definition page_response :: "int \<Rightarrow> string \<Rightarrow> Response" where
  "page_response status html =
     \<lparr>status_code = status, content_disposition = None, text_of = html, iter_content = [html]\<rparr>"

definition acquirer_env :: env where
  "acquirer_env =
     example_env
       \<lparr>http_get := (\<lambda>url.
          if url = ''http://example.com/docs'' then Some (page_response 200 ''docs'')
          else if url = ''http://example.com/list'' then Some (page_response 200 ''list'')
          else if url = ''http://example.com/gone'' then Some (page_response 404 ''gone'')
          else if url = ''http://example.com/a.pdf'' then Some (pdf_response ''%PDF-A'')
          else if url = ''http://example.com/b.pdf'' then Some (pdf_response ''%PDF-B'')
          else if url = ''http://example.com/copy.pdf'' then Some (pdf_response ''%PDF-A'')
          else None),
        select_pdf_downloads := (\<lambda>html.
          if html = ''docs'' then [[(''http://example.com/a.pdf'', []), (''http://example.com/copy.pdf'', [])]]
          else if html = ''list'' then [[(''http://example.com/a.pdf'', []), (''http://example.com/b.pdf'', [])]]
          else [])\<rparr>"

definition docs_first_run :: PDFScraper where
  "docs_first_run =
     \<lparr>output_dir = ''out'', history_file = ''out/download_history.txt'',
      downloaded_urls = {''http://example.com/a.pdf''}, downloaded_hashes = {''%PDF-A''},
      files = fmupd ''out/download_history.txt'' (''http://example.com/a.pdf'' @ [LF])
                (fmupd ''out/a.pdf'' ''%PDF-A'' fmempty)\<rparr>"

definition taken_dir :: PDFScraper where
  "taken_dir = PDFScraper_init (fmupd ''out/a_1.pdf'' ''older'' (fmupd ''out/a.pdf'' ''old'' fmempty)) ''out''"

section \<open>Notions used in the statements about the traversal\<close>

text \<open>
  What a running call of \<open>extract_urls\<close> holds: the URL it was called on, its \<open>page_urls\<close>,
  and the URL it is about to add at lines 61 and 62. \<open>is_fetching\<close>: the call has passed its
  guard and has not yet reached line 52.
\<close>

fun task_url :: "task \<Rightarrow> string" where
  "task_url (Checked url) = url"
| "task_url (Fetching url) = url"
| "task_url (Scanning url hrefs page_urls) = url"
| "task_url (Adding url full_url hrefs page_urls) = url"

fun task_page :: "task \<Rightarrow> string set" where
  "task_page (Checked url) = {}"
| "task_page (Fetching url) = {}"
| "task_page (Scanning url hrefs page_urls) = page_urls"
| "task_page (Adding url full_url hrefs page_urls) = page_urls"

fun task_adding :: "task \<Rightarrow> string set" where
  "task_adding (Adding url full_url hrefs page_urls) = {full_url}"
| "task_adding t = {}"

fun is_fetching :: "task \<Rightarrow> bool" where
  "is_fetching (Fetching url) = True"
| "is_fetching t = False"

definition task_within :: "string \<Rightarrow> string set \<Rightarrow> task \<Rightarrow> bool" where
  "task_within b A t \<longleftrightarrow> task_url t \<in> insert b A \<and> task_page t \<subseteq> A"

text \<open>The fields of the crawler that \<open>crawl\<close> never assigns.\<close>

definition same_config :: "WebCrawler \<Rightarrow> crawl_state \<Rightarrow> bool" where
  "same_config c s \<longleftrightarrow>
     base_url (crawler s) = base_url c \<and> domain (crawler s) = domain c \<and>
     max_depth (crawler s) = max_depth c \<and> max_pages (crawler s) = max_pages c"

text \<open>
  The invariants of a run of \<open>crawl\<close>. \<open>discovered_inv\<close>: every URL the run holds anywhere
  is the start URL or is in \<open>all_urls\<close>. \<open>eligible_inv\<close>: every URL in \<open>all_urls\<close>, or about
  to be added to it, has passed \<open>is_valid_url\<close>. \<open>budget_inv\<close>: at most ten calls run, and
  the pages fetched together with the requests under way are at most \<open>max_pages + 9\<close>.
  \<open>written_inv\<close>: once \<open>crawl\<close> has returned, the output file holds what line 97 wrote.
\<close>

definition discovered_inv :: "WebCrawler \<Rightarrow> crawl_state \<Rightarrow> bool" where
  "discovered_inv c s \<longleftrightarrow>
     same_config c s \<and>
     finite (visited_urls (crawler s)) \<and> finite (all_urls (crawler s)) \<and>
     visited_urls (crawler s) \<subseteq> insert (base_url c) (all_urls (crawler s)) \<and>
     next_urls s \<subseteq> all_urls (crawler s) \<and>
     current_urls s \<subseteq> insert (base_url c) (all_urls (crawler s)) \<and>
     queue s \<subseteq> insert (base_url c) (all_urls (crawler s)) \<and>
     (\<forall>t\<in>#running s. task_within (base_url c) (all_urls (crawler s)) t)"

definition eligible_inv :: "env \<Rightarrow> WebCrawler \<Rightarrow> crawl_state \<Rightarrow> bool" where
  "eligible_inv e c s \<longleftrightarrow>
     same_config c s \<and>
     (\<forall>url\<in>all_urls (crawler s). is_valid_url e c url = Some True) \<and>
     (\<forall>t\<in>#running s. \<forall>url\<in>task_adding t. is_valid_url e c url = Some True)"

definition budget_inv :: "WebCrawler \<Rightarrow> crawl_state \<Rightarrow> bool" where
  "budget_inv c s \<longleftrightarrow>
     same_config c s \<and> finite (visited_urls (crawler s)) \<and> size (running s) \<le> 10 \<and>
     int (card (visited_urls (crawler s))) + int (size (filter_mset is_fetching (running s)))
       \<le> max 0 (max_pages c) + 9"



text \<open>
  The page of the start URL has no link into the domain: no anchor of it joins to a URL
  whose \<open>netloc\<close> is the domain of the crawler. \<open>start_links\<close> is the number of its anchors.
\<close>

definition no_in_domain_links :: "env \<Rightarrow> WebCrawler \<Rightarrow> bool" where
  "no_in_domain_links e c \<longleftrightarrow>
     (\<forall>hrefs. fetch_links e (base_url c) = Some hrefs \<longrightarrow>
        (\<forall>href\<in>set hrefs. \<forall>full_url parsed.
           urljoin e (base_url c) href = Some full_url \<longrightarrow>
           urlparse e full_url = Some parsed \<longrightarrow> netloc parsed \<noteq> domain c))"

definition start_links :: "env \<Rightarrow> WebCrawler \<Rightarrow> nat" where
  "start_links e c = (case fetch_links e (base_url c) of None \<Rightarrow> 0 | Some hrefs \<Rightarrow> length hrefs)"

text \<open>
  The invariant of a run from such a page: nothing is discovered, the loop variable is 0,
  and every call is a call on the start URL that has added nothing. \<open>potential\<close> bounds
  the steps the run still has: every step makes it smaller.
\<close>

fun lone_task :: "env \<Rightarrow> WebCrawler \<Rightarrow> task \<Rightarrow> bool" where
  "lone_task e c (Checked url) = (url = base_url c)"
| "lone_task e c (Fetching url) = (url = base_url c)"
| "lone_task e c (Scanning url hrefs page_urls) =
     (url = base_url c \<and> page_urls = {} \<and> (\<exists>pre. fetch_links e (base_url c) = Some (pre @ hrefs)))"
| "lone_task e c (Adding url full_url hrefs page_urls) = False"

definition lone_inv :: "env \<Rightarrow> WebCrawler \<Rightarrow> crawl_state \<Rightarrow> bool" where
  "lone_inv e c s \<longleftrightarrow>
     same_config c s \<and> all_urls (crawler s) = {} \<and> next_urls s = {} \<and> depth s = 0 \<and>
     visited_urls (crawler s) \<subseteq> {base_url c} \<and> queue s \<subseteq> {base_url c} \<and>
     current_urls s \<subseteq> {base_url c} \<and> (\<forall>t\<in>#running s. lone_task e c t) \<and>
     (pc s = Done \<longrightarrow> disk s = Some [])"

fun task_cost :: "nat \<Rightarrow> task \<Rightarrow> nat" where
  "task_cost n (Checked url) = n + 3"
| "task_cost n (Fetching url) = n + 2"
| "task_cost n (Scanning url hrefs page_urls) = length hrefs + 1"
| "task_cost n (Adding url full_url hrefs page_urls) = length hrefs + 2"

definition potential :: "nat \<Rightarrow> crawl_state \<Rightarrow> nat" where
  "potential n s =
     (case pc s of
        AtFor \<Rightarrow> n + 6
      | InPool \<Rightarrow> 1 + (n + 4) * card (queue s) + sum_mset (image_mset (task_cost n) (running s))
      | Done \<Rightarrow> 0)"

text \<open>
  Why every run of \<open>crawl\<close> ends. \<open>task_fuel\<close> bounds the steps a call still has, from
  the anchors of its page; \<open>level_fuel\<close> adds up the calls of the pool, submitted or
  running. \<open>crawl_measure\<close> decreases with every step in the lexicographic order: the
  levels still to come, then the place of the main thread within the level, then the
  fuel of the level.
\<close>

definition page_fuel :: "env \<Rightarrow> string \<Rightarrow> nat" where
  "page_fuel e url = (case fetch_links e url of None \<Rightarrow> 0 | Some hrefs \<Rightarrow> 2 * length hrefs + 1)"

fun task_fuel :: "env \<Rightarrow> task \<Rightarrow> nat" where
  "task_fuel e (Checked url) = page_fuel e url + 2"
| "task_fuel e (Fetching url) = page_fuel e url + 1"
| "task_fuel e (Scanning url hrefs page_urls) = 2 * length hrefs + 1"
| "task_fuel e (Adding url full_url hrefs page_urls) = 2 * length hrefs + 2"

definition level_fuel :: "env \<Rightarrow> crawl_state \<Rightarrow> nat" where
  "level_fuel e s =
     sum (\<lambda>url. page_fuel e url + 3) (queue s) + sum_mset (image_mset (task_fuel e) (running s))"

definition crawl_measure :: "env \<Rightarrow> WebCrawler \<Rightarrow> crawl_state \<Rightarrow> nat \<times> nat \<times> nat" where
  "crawl_measure e c s =
     (if pc s = Done then 0 else 1 + nat (max_depth c - depth s),
      if pc s = AtFor then 1 else 0,
      level_fuel e s)"

definition level_inv :: "WebCrawler \<Rightarrow> crawl_state \<Rightarrow> bool" where
  "level_inv c s \<longleftrightarrow>
     same_config c s \<and> finite (queue s) \<and> finite (current_urls s) \<and>
     (pc s = InPool \<longrightarrow> depth s < max_depth c)"

abbreviation crawl_order :: "((nat \<times> nat \<times> nat) \<times> (nat \<times> nat \<times> nat)) set" where
  "crawl_order \<equiv> less_than <*lex*> less_than <*lex*> less_than"

text \<open>
  A site for the examples of the traversal. The home page links to \<open>/b\<close>, twice to \<open>/a\<close>
  and to another host; \<open>/a\<close> and \<open>/b\<close> have no anchor, \<open>/links\<close> links to the other host
  only, and \<open>/report.pdf\<close> is served like a page. Every other request fails.
\<close>

definition crawl_env :: env where
  "crawl_env =
     example_env
       \<lparr>http_get := (\<lambda>url.
          if url = ''http://example.com/'' then Some (page_response 200 ''home'')
          else if url = ''http://example.com/a'' then Some (page_response 200 ''a'')
          else if url = ''http://example.com/b'' then Some (page_response 200 ''b'')
          else if url = ''http://example.com/links'' then Some (page_response 200 ''links'')
          else if url = ''http://example.com/report.pdf'' then Some (page_response 200 ''report'')
          else None),
        find_all_a := (\<lambda>html.
          if html = ''home''
          then [''http://example.com/b'', ''http://example.com/a'', ''http://example.com/a'',
                ''http://other.com/b'']
          else if html = ''links'' then [''http://other.com/b'']
          else [])\<rparr>"

definition home_crawler :: WebCrawler where
  "home_crawler = \<lparr>base_url = ''http://example.com/'', output_file = ''out.txt'', max_depth = 10,
     max_pages = 500, visited_urls = {}, all_urls = {}, domain = ''example.com''\<rparr>"

text \<open>
  A complete run from the home page: the first level scans the home page, the second runs
  the calls on \<open>/b\<close> and \<open>/a\<close> side by side, and \<open>crawl\<close> writes the file and returns.
\<close>

definition home_run :: "event list" where
  "home_run =
     [Main, Start ''http://example.com/'', Step (Checked ''http://example.com/''),
      Step (Fetching ''http://example.com/''),
      Step (Scanning ''http://example.com/''
        [''http://example.com/b'', ''http://example.com/a'', ''http://example.com/a'',
         ''http://other.com/b''] {}),
      Step (Adding ''http://example.com/'' ''http://example.com/b''
        [''http://example.com/a'', ''http://example.com/a'', ''http://other.com/b''] {}),
      Step (Scanning ''http://example.com/''
        [''http://example.com/a'', ''http://example.com/a'', ''http://other.com/b'']
        {''http://example.com/b''}),
      Step (Adding ''http://example.com/'' ''http://example.com/a''
        [''http://example.com/a'', ''http://other.com/b''] {''http://example.com/b''}),
      Step (Scanning ''http://example.com/'' [''http://example.com/a'', ''http://other.com/b'']
        {''http://example.com/a'', ''http://example.com/b''}),
      Step (Scanning ''http://example.com/'' [''http://other.com/b'']
        {''http://example.com/a'', ''http://example.com/b''}),
      Step (Scanning ''http://example.com/'' []
        {''http://example.com/a'', ''http://example.com/b''}),
      Main, Main,
      Start ''http://example.com/b'', Start ''http://example.com/a'',
      Step (Checked ''http://example.com/a''), Step (Checked ''http://example.com/b''),
      Step (Fetching ''http://example.com/b''), Step (Fetching ''http://example.com/a''),
      Step (Scanning ''http://example.com/b'' [] {}),
      Step (Scanning ''http://example.com/a'' [] {}),
      Main]"

definition home_final :: crawl_state where
  "home_final =
     \<lparr>crawler = home_crawler
        \<lparr>visited_urls := {''http://example.com/a'', ''http://example.com/b'', ''http://example.com/''},
         all_urls := {''http://example.com/a'', ''http://example.com/b''}\<rparr>,
      pc = Done, depth = 1, current_urls = {}, queue = {}, running = {#}, next_urls = {},
      disk = Some (''http://example.com/a'' @ [LF] @ ''http://example.com/b'' @ [LF])\<rparr>"

text \<open>
  The same run with \<open>max_pages = 2\<close>, up to the point where both calls of the second
  level have passed the guard of line 44 and have fetched their pages.
\<close>

definition tight_crawler :: WebCrawler where
  "tight_crawler = \<lparr>base_url = ''http://example.com/'', output_file = ''out.txt'', max_depth = 10,
     max_pages = 2, visited_urls = {}, all_urls = {}, domain = ''example.com''\<rparr>"

definition tight_run :: "event list" where
  "tight_run = take 19 home_run"

definition tight_state :: crawl_state where
  "tight_state =
     \<lparr>crawler = tight_crawler
        \<lparr>visited_urls := {''http://example.com/a'', ''http://example.com/b'', ''http://example.com/''},
         all_urls := {''http://example.com/a'', ''http://example.com/b''}\<rparr>,
      pc = InPool, depth = 1,
      current_urls = {''http://example.com/a'', ''http://example.com/b''}, queue = {},
      running = {#Scanning ''http://example.com/a'' [] {}, Scanning ''http://example.com/b'' [] {}#},
      next_urls = {}, disk = None\<rparr>"

text \<open>A complete run from a page whose only link leaves the domain.\<close>

definition links_crawler :: WebCrawler where
  "links_crawler = \<lparr>base_url = ''http://example.com/links'', output_file = ''out.txt'',
     max_depth = 10, max_pages = 500, visited_urls = {}, all_urls = {}, domain = ''example.com''\<rparr>"

definition links_run :: "event list" where
  "links_run =
     [Main, Start ''http://example.com/links'', Step (Checked ''http://example.com/links''),
      Step (Fetching ''http://example.com/links''),
      Step (Scanning ''http://example.com/links'' [''http://other.com/b''] {}),
      Step (Scanning ''http://example.com/links'' [] {}),
      Main]"

definition links_final :: crawl_state where
  "links_final =
     \<lparr>crawler = links_crawler\<lparr>visited_urls := {''http://example.com/links''}\<rparr>,
      pc = Done, depth = 0, current_urls = {}, queue = {}, running = {#}, next_urls = {},
      disk = Some []\<rparr>"

text \<open>A complete run from a start URL that ends in \<open>.pdf\<close>.\<close>

definition pdf_crawler :: WebCrawler where
  "pdf_crawler = \<lparr>base_url = ''http://example.com/report.pdf'', output_file = ''out.txt'',
     max_depth = 10, max_pages = 500, visited_urls = {}, all_urls = {}, domain = ''example.com''\<rparr>"

definition pdf_run :: "event list" where
  "pdf_run =
     [Main, Start ''http://example.com/report.pdf'', Step (Checked ''http://example.com/report.pdf''),
      Step (Fetching ''http://example.com/report.pdf''),
      Step (Scanning ''http://example.com/report.pdf'' [] {}),
      Main]"

definition pdf_final :: crawl_state where
  "pdf_final =
     \<lparr>crawler = pdf_crawler\<lparr>visited_urls := {''http://example.com/report.pdf''}\<rparr>,
      pc = Done, depth = 0, current_urls = {}, queue = {}, running = {#}, next_urls = {},
      disk = Some []\<rparr>"

section \<open>Eligibility of a URL\<close>

lemmas eval_simps =
  endswith_def startswith_def suffix_to_prefix lower_def lower_char_def
  filtered_extensions_def is_alpha_def is_scheme_char_def split_scheme_def split_netloc_def
  urlparse_model_def example_env_def example_crawler_def

text \<open>
  C4, as the code has it. \<open>is_valid_url\<close> accepts a URL if and only if \<open>urlparse\<close> gives
  it a \<open>netloc\<close> equal to the fixed domain (the authority as it is written: a port or a
  user name in it counts, and so does the case of the letters) and the scheme \<open>http\<close> or
  \<open>https\<close>, and the URL string as a whole (query string and fragment included) does not
  end in one of \<open>.pdf .jpg .png .gif .css .js\<close>. The loop of \<open>extract_urls\<close> goes on to add
  the URL of an anchor (lines 61 and 62) if and only if \<open>urljoin\<close> gives that URL,
  \<open>is_valid_url\<close> accepts it and it is not in \<open>all_urls\<close>.
\<close>

theorem is_valid_url_iff:
  "(is_valid_url e self url = Some True \<longleftrightarrow>
      (\<exists>parsed. urlparse e url = Some parsed \<and>
         netloc parsed = domain self \<and>
         (scheme parsed = ''http'' \<or> scheme parsed = ''https'') \<and>
         (\<forall>ext \<in> set [''.pdf'', ''.jpg'', ''.png'', ''.gif'', ''.css'', ''.js'']. \<not> endswith url ext))) \<and>
   (task_step e self level (Scanning page (href # hrefs) page_urls)
      = (self, Continue (Adding page full_url hrefs page_urls)) \<longleftrightarrow>
      urljoin e page href = Some full_url \<and> is_valid_url e self full_url = Some True \<and>
      full_url \<notin> all_urls self)"
proof (intro conjI)
  show "is_valid_url e self url = Some True \<longleftrightarrow>
      (\<exists>parsed. urlparse e url = Some parsed \<and>
         netloc parsed = domain self \<and>
         (scheme parsed = ''http'' \<or> scheme parsed = ''https'') \<and>
         (\<forall>ext \<in> set [''.pdf'', ''.jpg'', ''.png'', ''.gif'', ''.css'', ''.js'']. \<not> endswith url ext))"
    by (auto simp: is_valid_url_def filtered_extensions_def list_ex_iff split: option.splits)
  show "task_step e self level (Scanning page (href # hrefs) page_urls)
      = (self, Continue (Adding page full_url hrefs page_urls)) \<longleftrightarrow>
      urljoin e page href = Some full_url \<and> is_valid_url e self full_url = Some True \<and>
      full_url \<notin> all_urls self"
    by (cases "urljoin e page href"; cases "is_valid_url e self (the (urljoin e page href))") auto
qed

theorem is_valid_url_iff_witness:
  "is_valid_url example_env example_crawler ''http://example.com/about'' = Some True \<and>
   is_valid_url example_env example_crawler ''http://example.com/a.pdf'' \<noteq> Some True \<and>
   is_valid_url example_env example_crawler ''http://other.com/b'' \<noteq> Some True \<and>
   is_valid_url example_env example_crawler ''http://example.com:80/x'' \<noteq> Some True \<and>
   is_valid_url example_env example_crawler ''ftp://example.com/x'' \<noteq> Some True \<and>
   is_valid_url example_env example_crawler ''http://example.com/a.pdf?next=b.pdf'' \<noteq> Some True \<and>
   task_step example_env example_crawler 0
       (Scanning ''http://example.com/'' [''http://example.com/about''] {})
     = (example_crawler, Continue (Adding ''http://example.com/'' ''http://example.com/about'' [] {})) \<and>
   task_step example_env (example_crawler\<lparr>all_urls := {''http://example.com/about''}\<rparr>) 0
       (Scanning ''http://example.com/'' [''http://example.com/about''] {})
     \<noteq> (example_crawler\<lparr>all_urls := {''http://example.com/about''}\<rparr>,
         Continue (Adding ''http://example.com/'' ''http://example.com/about'' [] {}))"
  unfolding is_valid_url_iff[THEN conjunct1] is_valid_url_iff[THEN conjunct2]
  by (simp add: eval_simps)

text \<open>
  C4 as stated fails: the path of \<open>http://example.com/a.pdf?x=1\<close> is \<open>/a.pdf\<close>, which ends
  in a filtered extension, and the URL is accepted, since the string ends in \<open>?x=1\<close>.
\<close>

theorem is_valid_url_query_counterexample:
  "map_option path (urlparse example_env ''http://example.com/a.pdf?x=1'') = Some ''/a.pdf'' \<and>
   endswith ''/a.pdf'' ''.pdf'' \<and>
   is_valid_url example_env example_crawler ''http://example.com/a.pdf?x=1'' = Some True"
  by (simp add: eval_simps is_valid_url_def)

section \<open>The acquirer\<close>

lemma scrape_multiple_pages_append:
  "scrape_multiple_pages e self (xs @ ys) =
     (case scrape_multiple_pages e self xs of
        (n, self1) \<Rightarrow>
          (case scrape_multiple_pages e self1 ys of (m, self2) \<Rightarrow> (n + m, self2)))"
  by (induction xs arbitrary: self) (auto split: prod.splits)

text \<open>
  C8. When the fetch of a page returns a status other than 200, \<open>scrape_page\<close> returns 0
  and leaves the scraper as it was; so it does when the request raises, or when
  \<open>extract_pdf_links\<close> raises. \<open>scrape_multiple_pages\<close> then goes on: the run over a list
  that holds such a page is the run over the pages before it, then \<open>scrape_page\<close> on the
  page that follows it, from the scraper the pages before it left, then the run over the
  rest, and the count is the sum of the three. A failing page at the end of the list
  leaves the result of the pages before it.
\<close>

theorem failing_page_isolated:
  assumes "http_get e url = None \<or>
           (\<exists>response. http_get e url = Some response \<and>
              (status_code response \<noteq> 200 \<or> extract_pdf_links e (text_of response) url = None))"
  shows "scrape_page e self url = (0, self) \<and>
         scrape_multiple_pages e self (before @ [url]) = scrape_multiple_pages e self before \<and>
         scrape_multiple_pages e self (before @ url # next_url # urls) =
           (case scrape_multiple_pages e self before of
              (n, self1) \<Rightarrow>
                (case scrape_page e self1 next_url of
                   (k, self2) \<Rightarrow>
                     (case scrape_multiple_pages e self2 urls of
                        (m, self3) \<Rightarrow> (n + k + m, self3))))"
proof -
  have z: "scrape_page e s url = (0, s)" for s
    using assms by (auto simp: scrape_page_def)
  show ?thesis
    by (simp add: z scrape_multiple_pages_append split: prod.splits)
qed

lemma unused_filename_free:
  "path_join dir (unused_filename fs dir orig filename counter) \<notin> fmdom' fs"
proof (induction fs dir orig filename counter rule: unused_filename.induct)
  case (1 fs dir orig filename counter)
  then show ?case by (subst unused_filename.simps) simp
qed

lemma unused_filename_cases:
  "unused_filename fs dir orig filename counter = filename \<and> path_join dir filename \<notin> fmdom' fs \<or>
   path_join dir filename \<in> fmdom' fs \<and>
   (\<exists>k\<ge>counter. unused_filename fs dir orig filename counter = numbered orig k \<and>
      (\<forall>j. counter \<le> j \<and> j < k \<longrightarrow> path_join dir (numbered orig j) \<in> fmdom' fs))"
proof (induction fs dir orig filename counter rule: unused_filename.induct)
  case (1 fs dir orig filename counter)
  show ?case
  proof (cases "path_join dir filename \<in> fmdom' fs")
    case False
    then show ?thesis by (subst unused_filename.simps) simp
  next
    case True
    then have eq: "unused_filename fs dir orig filename counter =
        unused_filename fs dir orig (numbered orig counter) (counter + 1)"
      by (subst unused_filename.simps) simp
    from "1.IH"[OF True] show ?thesis
    proof (elim disjE conjE exE)
      assume "unused_filename fs dir orig (numbered orig counter) (counter + 1) = numbered orig counter"
        "path_join dir (numbered orig counter) \<notin> fmdom' fs"
      with True eq show ?thesis by (intro disjI2 conjI exI[of _ counter]) auto
    next
      fix k assume k: "counter + 1 \<le> k"
        "unused_filename fs dir orig (numbered orig counter) (counter + 1) = numbered orig k"
        "\<forall>j. counter + 1 \<le> j \<and> j < k \<longrightarrow> path_join dir (numbered orig j) \<in> fmdom' fs"
        and t: "path_join dir (numbered orig counter) \<in> fmdom' fs"
      have "\<forall>j. counter \<le> j \<and> j < k \<longrightarrow> path_join dir (numbered orig j) \<in> fmdom' fs"
      proof (intro allI impI)
        fix j assume "counter \<le> j \<and> j < k"
        then show "path_join dir (numbered orig j) \<in> fmdom' fs"
          using k(3) t by (cases "j = counter") auto
      qed
      with True eq k show ?thesis by (intro disjI2 conjI exI[of _ k]) auto
    qed
  qed
qed

lemma lower_append: "lower (a @ b) = lower a @ lower b"
  by (simp add: lower_def)

lemma lower_pdf: "lower ''.pdf'' = ''.pdf''"
  by (simp add: lower_def lower_char_def)

lemma path_join_suffix: "\<exists>x. path_join dir f = x @ f"
  by (auto simp: path_join_def intro: exI[of _ "[]"])

lemma ends_pdf_append: "endswith (lower f) ''.pdf'' \<Longrightarrow> endswith (lower (x @ f)) ''.pdf''"
  by (simp add: endswith_def lower_append suffix_append)

lemma ends_pdf_path_join: "endswith (lower f) ''.pdf'' \<Longrightarrow> endswith (lower (path_join dir f)) ''.pdf''"
  using path_join_suffix[of dir f] by (auto simp: ends_pdf_append)

lemma ends_pdf_literal: "endswith (lower (x @ ''.pdf'')) ''.pdf''"
  by (simp add: endswith_def lower_append lower_pdf suffix_def)

lemma with_pdf_extension_pdf: "endswith (lower (with_pdf_extension f)) ''.pdf''"
  by (simp add: with_pdf_extension_def ends_pdf_literal)

lemma numbered_pdf: "endswith (lower (numbered orig k)) ''.pdf''"
  using ends_pdf_literal[of "orig @ ''_'' @ str_nat k"] by (simp add: numbered_def)

lemma resolved_filename_pdf: "endswith (lower (resolved_filename self f)) ''.pdf''"
  using unused_filename_cases[of "files self" "output_dir self" "replace_pdf (with_pdf_extension f)"
      "with_pdf_extension f" 1]
  by (auto simp: resolved_filename_def Let_def with_pdf_extension_pdf numbered_pdf)

lemma resolved_filename_free:
  "path_join (output_dir self) (resolved_filename self f) \<notin> fmdom' (files self)"
  by (simp add: resolved_filename_def Let_def unused_filename_free)

lemma history_not_pdf: "\<not> endswith (lower (path_join dir ''download_history.txt'')) ''.pdf''"
proof -
  obtain x where "path_join dir ''download_history.txt'' = x @ ''download_history.txt''"
    using path_join_suffix by blast
  then show ?thesis
    by (simp add: endswith_def lower_append suffix_to_prefix) (simp add: lower_def lower_char_def)
qed

lemma resolved_path_not_history:
  "wf_scraper self \<Longrightarrow> path_join (output_dir self) (resolved_filename self f) \<noteq> history_file self"
  using ends_pdf_path_join[OF resolved_filename_pdf, of "output_dir self" self f] history_not_pdf[of "output_dir self"]
  by (auto simp: wf_scraper_def)

lemma download_pdf_duplicate:
  assumes "url \<notin> downloaded_urls self"
    and "http_get e url = Some response"
    and "status_code response = 200"
    and "default_filename e url response filename0 = Some filename1"
    and "md5_hexdigest e (written_bytes response) \<in> downloaded_hashes self"
  shows "download_pdf e self url filename0 = (False, self) \<and>
         path_join (output_dir self) (resolved_filename self filename1) \<notin> fmdom' (files self)"
  using assms resolved_filename_free[of self filename1]
  by (simp add: download_pdf_def Let_def calculate_file_hash_def fmdrop_fmupd fmdrop_idle')

lemma readlines_from_line:
  "\<forall>c\<in>set url. c \<noteq> LF \<and> c \<noteq> CR \<Longrightarrow>
   readlines_from b cur (url @ [LF]) =
     (if url = [] \<and> b then (if cur = [] then [] else [cur]) else [cur @ url @ [LF]])"
  by (induction url arbitrary: b cur) auto

lemma readlines_from_append_line:
  assumes "\<forall>c\<in>set url. c \<noteq> LF \<and> c \<noteq> CR" and "url \<noteq> []"
    and "xs = [] \<longrightarrow> cur = []" and "xs \<noteq> [] \<longrightarrow> last xs = LF \<or> last xs = CR"
    and "b \<longrightarrow> cur = []"
  shows "readlines_from b cur (xs @ url @ [LF]) = readlines_from b cur xs @ [url @ [LF]]"
  using assms(3-)
proof (induction xs arbitrary: b cur)
  case Nil
  with assms(1,2) show ?case by (simp add: readlines_from_line)
next
  case (Cons c cs)
  show ?case
  proof (cases "cs = []")
    case True
    with Cons.prems assms(1,2) show ?thesis
      by (auto simp: readlines_from_line)
  next
    case False
    with Cons.prems have l: "cs \<noteq> [] \<longrightarrow> last cs = LF \<or> last cs = CR" by simp
    from False Cons.prems l show ?thesis
      by (auto simp: Cons.IH)
  qed
qed

lemma readlines_append_line:
  assumes "\<forall>c\<in>set url. c \<noteq> LF \<and> c \<noteq> CR" and "url \<noteq> []" and "terminated content"
  shows "readlines (content @ url @ [LF]) = readlines content @ [url @ [LF]]"
  unfolding readlines_def using assms
  by (intro readlines_from_append_line) (auto simp: terminated_def)

lemma is_space_LF: "is_space LF"
  by (simp add: is_space_def)

lemma strip_line:
  assumes "url \<noteq> []" and "\<not> is_space (hd url)" and "\<not> is_space (last url)"
  shows "strip (url @ [LF]) = url"
proof -
  from assms(1,2) have "dropWhile is_space (url @ [LF]) = url @ [LF]"
    by (cases url) auto
  moreover from assms(1,3) have "dropWhile is_space (rev url) = rev url"
    by (cases "rev url") (auto simp: last_rev hd_rev dest: arg_cong[where f=hd])
  ultimately show ?thesis
    by (simp add: strip_def is_space_LF)
qed

lemma loaded_urls_append:
  "clean_url url \<Longrightarrow> terminated content \<Longrightarrow>
   loaded_urls (content @ url @ [LF]) = insert url (loaded_urls content)"
  by (simp add: loaded_urls_def clean_url_def readlines_append_line strip_line)

text \<open>
  C10, as the code has it. A URL that is not empty, holds no line terminator (\<open>\n\<close> or
  \<open>\r\<close>) and has no whitespace at either end is in the download history of a new
  \<open>PDFScraper\<close> over the same directory once \<open>save_url_to_history\<close> has appended it,
  provided that the history file was absent, empty or ended with a line terminator.
\<close>

theorem history_round_trip:
  assumes "history_file self = path_join (output_dir self) ''download_history.txt''"
    and "url \<noteq> []" and "\<forall>c\<in>set url. c \<noteq> LF \<and> c \<noteq> CR"
    and "\<not> is_space (hd url)" and "\<not> is_space (last url)"
    and "case fmlookup (files self) (history_file self) of
           None \<Rightarrow> True
         | Some content \<Rightarrow> content = [] \<or> last content = LF \<or> last content = CR"
  shows "url \<in> downloaded_urls (PDFScraper_init (files (save_url_to_history self url)) (output_dir self))"
proof -
  have t: "terminated (history_content self)"
    using assms(6) by (auto simp: terminated_def history_content_def split: option.splits)
  have "clean_url url" using assms(2-5) by (simp add: clean_url_def)
  from loaded_urls_append[OF this t] show ?thesis
    using assms(1)
    by (simp add: PDFScraper_init_def save_url_to_history_def Let_def loaded_urls_def history_content_def)
qed

text \<open>
  C10 as stated fails when the last line of the history file has no terminator: the URL
  is appended to that line, and neither is found again.
\<close>

theorem history_round_trip_unterminated_counterexample:
  "clean_url ''http://b'' \<and>
   ''http://b'' \<notin> downloaded_urls (PDFScraper_init (files (save_url_to_history
      (PDFScraper_init (fmupd ''out/download_history.txt'' ''http://a'' fmempty) ''out'') ''http://b'')) ''out'')"
  by (simp add: clean_url_def PDFScraper_init_def save_url_to_history_def Let_def path_join_def
      readlines_def strip_def is_space_def)

lemma scrape_page_links: "scrape_page e self url = download_each e self (page_links e url)"
  by (simp add: scrape_page_def page_links_def split: option.splits)

lemma download_pdf_skip:
  "url \<in> downloaded_urls self \<or> \<not> fetchable e url \<Longrightarrow> download_pdf e self url None = (False, self)"
  by (auto simp: download_pdf_def fetchable_def split: option.splits)

lemma download_pdf_store:
  assumes "wf_scraper self" and "url \<notin> downloaded_urls self"
    and "http_get e url = Some response" and "status_code response = 200"
    and "default_filename e url response filename0 = Some filename1"
    and "md5_hexdigest e (written_bytes response) \<notin> downloaded_hashes self"
  shows "download_pdf e self url filename0 = (True, stored e self url response filename1)"
  using assms resolved_path_not_history[OF assms(1), of filename1]
  by (simp add: download_pdf_def Let_def calculate_file_hash_def save_url_to_history_def stored_def
      history_content_def)

lemma download_pdf_outcomes:
  assumes "wf_scraper self"
  shows "download_pdf e self url filename0 = (False, self) \<or>
         (\<exists>response filename1. url \<notin> downloaded_urls self \<and> http_get e url = Some response \<and>
            status_code response = 200 \<and> default_filename e url response filename0 = Some filename1 \<and>
            md5_hexdigest e (written_bytes response) \<notin> downloaded_hashes self \<and>
            download_pdf e self url filename0 = (True, stored e self url response filename1))"
proof (cases "url \<in> downloaded_urls self")
  case True
  then show ?thesis by (simp add: download_pdf_def)
next
  case False
  show ?thesis
  proof (cases "http_get e url")
    case None
    with False show ?thesis by (simp add: download_pdf_def)
  next
    case (Some response)
    show ?thesis
    proof (cases "status_code response = 200")
      case ok: True
      show ?thesis
      proof (cases "default_filename e url response filename0")
        case None
        with False Some ok show ?thesis by (simp add: download_pdf_def)
      next
        case f: (Some filename1)
        show ?thesis
        proof (cases "md5_hexdigest e (written_bytes response) \<in> downloaded_hashes self")
          case True
          from download_pdf_duplicate[OF False Some ok f True] show ?thesis by simp
        next
          case h: False
          from download_pdf_store[OF assms False Some ok f h] False Some ok f h
          show ?thesis by blast
        qed
      qed
    next
      case False
      with \<open>url \<notin> downloaded_urls self\<close> Some show ?thesis by (simp add: download_pdf_def)
    qed
  qed
qed

lemma stored_fields [simp]:
  "output_dir (stored e self url r f) = output_dir self"
  "history_file (stored e self url r f) = history_file self"
  "downloaded_urls (stored e self url r f) = insert url (downloaded_urls self)"
  "downloaded_hashes (stored e self url r f) = insert (md5_hexdigest e (written_bytes r)) (downloaded_hashes self)"
  by (simp_all add: stored_def)

lemma stored_history:
  "history_content (stored e self url r f) = history_content self @ url @ [LF]"
  by (simp add: stored_def history_content_def)

lemma keeps_refl: "keeps self self"
  by (auto simp: keeps_def)

lemma keeps_trans: "keeps a b \<Longrightarrow> keeps b c \<Longrightarrow> keeps a c"
  unfolding keeps_def by (auto split: if_splits) (metis append.assoc)

lemma keeps_stored:
  assumes "wf_scraper self"
  shows "keeps self (stored e self url r f)"
proof -
  have free: "path_join (output_dir self) (resolved_filename self f) \<notin> fmdom' (files self)"
    by (rule resolved_filename_free)
  have "fmlookup (files self) p = Some c \<Longrightarrow> p \<noteq> path_join (output_dir self) (resolved_filename self f)" for p c
    using free by (auto simp: fmdom'I)
  then show ?thesis
    by (auto simp: keeps_def stored_def history_content_def)
qed

lemma download_pdf_keeps:
  "wf_scraper self \<Longrightarrow> download_pdf e self url filename0 = (ok, self') \<Longrightarrow> keeps self self'"
  using download_pdf_outcomes[of self e url filename0]
  by (auto simp: keeps_refl keeps_stored)

lemma keeps_wf: "keeps self self' \<Longrightarrow> wf_scraper self \<Longrightarrow> wf_scraper self'"
  by (simp add: keeps_def wf_scraper_def)

lemma download_each_keeps:
  "wf_scraper self \<Longrightarrow> download_each e self links = (n, self') \<Longrightarrow> keeps self self'"
proof (induction links arbitrary: self n self')
  case Nil
  then show ?case by (simp add: keeps_refl)
next
  case (Cons url links)
  obtain ok self1 where d: "download_pdf e self url None = (ok, self1)" by fastforce
  obtain m self2 where r: "download_each e self1 links = (m, self2)" by fastforce
  from d r Cons.prems(2) have "self' = self2" by simp
  moreover from download_pdf_keeps[OF Cons.prems(1) d] have k: "keeps self self1" .
  moreover from Cons.IH[OF keeps_wf[OF k Cons.prems(1)] r] have "keeps self1 self2" .
  ultimately show ?case using keeps_trans by blast
qed

lemma scrape_multiple_pages_keeps:
  "wf_scraper self \<Longrightarrow> scrape_multiple_pages e self urls = (n, self') \<Longrightarrow> keeps self self'"
proof (induction urls arbitrary: self n self')
  case Nil
  then show ?case by (simp add: keeps_refl)
next
  case (Cons url urls)
  obtain k self1 where d: "scrape_page e self url = (k, self1)" by fastforce
  obtain m self2 where r: "scrape_multiple_pages e self1 urls = (m, self2)" by fastforce
  from d r Cons.prems(2) have "self' = self2" by simp
  moreover from d have k: "keeps self self1"
    using download_each_keeps[OF Cons.prems(1)] by (simp add: scrape_page_links)
  moreover from Cons.IH[OF keeps_wf[OF k Cons.prems(1)] r] have "keeps self1 self2" .
  ultimately show ?case using keeps_trans by blast
qed

lemma terminated_append: "terminated (content @ url @ [LF])"
  by (simp add: terminated_def)

lemma download_pdf_run:
  assumes inv: "run_inv e C self" and u: "url \<in> C" and clean: "clean_url url"
    and dd: "distinct_digests e C"
    and d: "download_pdf e self url None = (ok, self')"
  shows "run_inv e C self' \<and> downloaded_urls self \<subseteq> downloaded_urls self' \<and>
         (url \<in> downloaded_urls self' \<or> \<not> fetchable e url)"
proof -
  from inv have wf: "wf_scraper self" by (simp add: run_inv_def)
  from download_pdf_outcomes[OF wf, of e url None] show ?thesis
  proof (elim disjE exE conjE)
    assume same: "download_pdf e self url None = (False, self)"
    with d have eq: "self' = self" by simp
    have "url \<in> downloaded_urls self \<or> \<not> fetchable e url"
    proof (rule ccontr)
      assume "\<not> (url \<in> downloaded_urls self \<or> \<not> fetchable e url)"
      then have nu: "url \<notin> downloaded_urls self" and f: "fetchable e url" by auto
      from f obtain r f1 where r: "http_get e url = Some r" "status_code r = 200"
        "default_filename e url r None = Some f1"
        by (auto simp: fetchable_def split: option.splits)
      have "md5_hexdigest e (written_bytes r) \<in> downloaded_hashes self"
      proof (rule ccontr)
        assume "md5_hexdigest e (written_bytes r) \<notin> downloaded_hashes self"
        from download_pdf_store[OF wf nu r this] same show False by simp
      qed
      with inv obtain v where v: "v \<in> downloaded_urls self" "v \<in> C"
        "digest_of e v = Some (md5_hexdigest e (written_bytes r))"
        by (auto simp: run_inv_def)
      from r have "digest_of e url = Some (md5_hexdigest e (written_bytes r))"
        by (simp add: digest_of_def)
      then have dg: "digest_of e url = Some (md5_hexdigest e (written_bytes r))" .
      from v(1) nu have "url \<noteq> v" by auto
      with dd u v(2) dg have "digest_of e url \<noteq> digest_of e v"
        unfolding distinct_digests_def by blast
      with dg v(3) show False by simp
    qed
    with eq inv show ?thesis by simp
  next
    fix r f1
    assume nu: "url \<notin> downloaded_urls self" and r: "http_get e url = Some r" "status_code r = 200"
      and st: "download_pdf e self url None = (True, stored e self url r f1)"
    with d have eq: "self' = stored e self url r f1" by simp
    from r have dg: "digest_of e url = Some (md5_hexdigest e (written_bytes r))"
      by (simp add: digest_of_def)
    from inv have t: "terminated (history_content self)" by (simp add: run_inv_def)
    have "run_inv e C (stored e self url r f1)"
      unfolding run_inv_def
    proof (intro conjI)
      show "wf_scraper (stored e self url r f1)" using wf by (simp add: wf_scraper_def)
      show "terminated (history_content (stored e self url r f1))"
        by (simp add: stored_history terminated_append)
      show "downloaded_urls (stored e self url r f1) \<subseteq> loaded_urls (history_content (stored e self url r f1))"
        using inv by (auto simp: stored_history loaded_urls_append[OF clean t] run_inv_def)
      show "\<forall>h\<in>downloaded_hashes (stored e self url r f1).
               \<exists>u\<in>downloaded_urls (stored e self url r f1) \<inter> C. digest_of e u = Some h"
        using inv u dg by (auto simp: run_inv_def)
    qed
    with eq show ?thesis by auto
  qed
qed

lemma download_each_run:
  assumes "run_inv e C self" and "set links \<subseteq> C" and "\<forall>u\<in>C. clean_url u"
    and "distinct_digests e C" and "download_each e self links = (n, self')"
  shows "run_inv e C self' \<and> downloaded_urls self \<subseteq> downloaded_urls self' \<and>
         (\<forall>u\<in>set links. u \<in> downloaded_urls self' \<or> \<not> fetchable e u)"
  using assms
proof (induction links arbitrary: self n self')
  case Nil
  then show ?case by simp
next
  case (Cons url links)
  obtain ok self1 where d: "download_pdf e self url None = (ok, self1)" by fastforce
  obtain m self2 where r: "download_each e self1 links = (m, self2)" by fastforce
  from d r Cons.prems(5) have eq: "self' = self2" by simp
  from Cons.prems have u: "url \<in> C" "clean_url url" "set links \<subseteq> C" by auto
  from download_pdf_run[OF Cons.prems(1) u(1,2) Cons.prems(4) d]
  have 1: "run_inv e C self1" "downloaded_urls self \<subseteq> downloaded_urls self1"
    "url \<in> downloaded_urls self1 \<or> \<not> fetchable e url" by auto
  from Cons.IH[OF 1(1) u(3) Cons.prems(3,4) r]
  have 2: "run_inv e C self2" "downloaded_urls self1 \<subseteq> downloaded_urls self2"
    "\<forall>u\<in>set links. u \<in> downloaded_urls self2 \<or> \<not> fetchable e u" by auto
  from 1 2 eq show ?case by auto
qed

lemma scrape_multiple_pages_run:
  assumes "run_inv e C self" and "candidates e urls \<subseteq> C" and "\<forall>u\<in>C. clean_url u"
    and "distinct_digests e C" and "scrape_multiple_pages e self urls = (n, self')"
  shows "run_inv e C self' \<and> downloaded_urls self \<subseteq> downloaded_urls self' \<and>
         (\<forall>u\<in>candidates e urls. u \<in> downloaded_urls self' \<or> \<not> fetchable e u)"
  using assms
proof (induction urls arbitrary: self n self')
  case Nil
  then show ?case by (simp add: candidates_def)
next
  case (Cons url urls)
  obtain k self1 where d: "download_each e self (page_links e url) = (k, self1)" by fastforce
  obtain m self2 where r: "scrape_multiple_pages e self1 urls = (m, self2)" by fastforce
  from d r Cons.prems(5) have eq: "self' = self2" by (simp add: scrape_page_links)
  from Cons.prems(2) have sub: "set (page_links e url) \<subseteq> C" "candidates e urls \<subseteq> C"
    by (auto simp: candidates_def)
  from download_each_run[OF Cons.prems(1) sub(1) Cons.prems(3,4) d]
  have 1: "run_inv e C self1" "downloaded_urls self \<subseteq> downloaded_urls self1"
    "\<forall>u\<in>set (page_links e url). u \<in> downloaded_urls self1 \<or> \<not> fetchable e u" by auto
  from Cons.IH[OF 1(1) sub(2) Cons.prems(3,4) r]
  have 2: "run_inv e C self2" "downloaded_urls self1 \<subseteq> downloaded_urls self2"
    "\<forall>u\<in>candidates e urls. u \<in> downloaded_urls self2 \<or> \<not> fetchable e u" by auto
  from 1 2 eq show ?case by (auto simp: candidates_def)
qed

lemma download_each_nothing:
  "\<forall>u\<in>set links. u \<in> downloaded_urls self \<or> \<not> fetchable e u \<Longrightarrow>
   download_each e self links = (0, self)"
  by (induction links) (simp_all add: download_pdf_skip)

lemma scrape_multiple_pages_nothing:
  "\<forall>u\<in>candidates e urls. u \<in> downloaded_urls self \<or> \<not> fetchable e u \<Longrightarrow>
   scrape_multiple_pages e self urls = (0, self)"
  by (induction urls) (simp_all add: candidates_def scrape_page_links download_each_nothing)

lemma init_run_inv:
  assumes "case fmlookup fs (path_join out ''download_history.txt'') of
             None \<Rightarrow> True | Some content \<Rightarrow> terminated content"
  shows "run_inv e C (PDFScraper_init fs out)"
  using assms
  by (auto simp: run_inv_def PDFScraper_init_def Let_def wf_scraper_def history_content_def
      loaded_urls_def terminated_def split: option.splits)

text \<open>
  C3, as the code has it. A second run over the same pages, in the same environment and
  with the files the first run left, stores nothing, provided that no two links of the
  run that download have the same content digest, that the links hold no line terminator
  and no whitespace at either end, and that the history file the first run started from
  was absent, empty or ended with a line terminator.
\<close>

theorem second_run_stores_nothing:
  assumes "case fmlookup fs (path_join out ''download_history.txt'') of
             None \<Rightarrow> True | Some content \<Rightarrow> terminated content"
    and "\<forall>u\<in>candidates e urls. clean_url u"
    and "distinct_digests e (candidates e urls)"
    and "scrape_multiple_pages e (PDFScraper_init fs out) urls = (n, self1)"
  shows "scrape_multiple_pages e (PDFScraper_init (files self1) out) urls =
           (0, PDFScraper_init (files self1) out)"
proof -
  from scrape_multiple_pages_run[OF init_run_inv[OF assms(1)] subset_refl assms(2,3,4)]
  have inv: "run_inv e (candidates e urls) self1"
    and all: "\<forall>u\<in>candidates e urls. u \<in> downloaded_urls self1 \<or> \<not> fetchable e u" by auto
  from scrape_multiple_pages_keeps[OF _ assms(4)]
  have "history_file self1 = path_join out ''download_history.txt''"
    by (simp add: keeps_def wf_scraper_def PDFScraper_init_def Let_def)
  with inv have "downloaded_urls self1 \<subseteq> downloaded_urls (PDFScraper_init (files self1) out)"
    by (auto simp: run_inv_def PDFScraper_init_def Let_def history_content_def loaded_urls_def
        readlines_def split: option.splits)
  with all show ?thesis
    by (intro scrape_multiple_pages_nothing) auto
qed

lemmas acquirer_simps =
  eval_simps acquirer_env_def pdf_response_def page_response_def scrape_page_def
  extract_pdf_links_def download_pdf_def default_filename_def basename_def
  with_pdf_extension_def resolved_filename_def unused_filename.simps numbered_def
  str_nat_small digit_char_def written_bytes_def calculate_file_hash_def
  save_url_to_history_def PDFScraper_init_def path_join_def readlines_def strip_def
  is_space_def Let_def fmdrop_fmupd

text \<open>
  C3 as stated fails: the content hash set is not kept between runs. Two links with the
  same content: the first run stores the first and drops the second as a duplicate, which
  the history does not record; the second run stores the second.
\<close>

theorem second_run_duplicate_counterexample:
  "scrape_multiple_pages acquirer_env (PDFScraper_init fmempty ''out'') [''http://example.com/docs'']
     = (1, docs_first_run) \<and>
   fst (scrape_multiple_pages acquirer_env (PDFScraper_init (files docs_first_run) ''out'')
          [''http://example.com/docs'']) = 1"
  by (simp add: acquirer_simps docs_first_run_def)

theorem second_run_stores_nothing_witness:
  "fst (scrape_multiple_pages acquirer_env (PDFScraper_init fmempty ''out'') [''http://example.com/list'']) = 2 \<and>
   scrape_multiple_pages acquirer_env
     (PDFScraper_init
        (files (snd (scrape_multiple_pages acquirer_env (PDFScraper_init fmempty ''out'')
           [''http://example.com/list''])))
        ''out'')
     [''http://example.com/list''] =
   (0, PDFScraper_init
        (files (snd (scrape_multiple_pages acquirer_env (PDFScraper_init fmempty ''out'')
           [''http://example.com/list''])))
        ''out'')"
proof -
  have c: "candidates acquirer_env [''http://example.com/list''] =
      {''http://example.com/a.pdf'', ''http://example.com/b.pdf''}"
    by (simp add: candidates_def page_links_def acquirer_simps)
  have 1: "case fmlookup fmempty (path_join ''out'' ''download_history.txt'') of
             None \<Rightarrow> True | Some content \<Rightarrow> terminated content"
    by simp
  have 2: "\<forall>u\<in>candidates acquirer_env [''http://example.com/list'']. clean_url u"
    unfolding c by (simp add: clean_url_def is_space_def)
  have 3: "distinct_digests acquirer_env (candidates acquirer_env [''http://example.com/list''])"
    unfolding c by (simp add: distinct_digests_def digest_of_def acquirer_simps)
  have 4: "fst (scrape_multiple_pages acquirer_env (PDFScraper_init fmempty ''out'')
             [''http://example.com/list'']) = 2"
    by (simp add: acquirer_simps)
  from second_run_stores_nothing[OF 1 2 3 prod.collapse[symmetric]] 4 show ?thesis by simp
qed

theorem failing_page_isolated_witness:
  "scrape_page acquirer_env (PDFScraper_init fmempty ''out'') ''http://example.com/gone''
     = (0, PDFScraper_init fmempty ''out'') \<and>
   scrape_page acquirer_env (PDFScraper_init fmempty ''out'') ''http://example.com/docs''
     = (1, docs_first_run) \<and>
   scrape_multiple_pages acquirer_env (PDFScraper_init fmempty ''out'')
     [''http://example.com/gone'', ''http://example.com/docs''] = (1, docs_first_run) \<and>
   scrape_multiple_pages acquirer_env (PDFScraper_init fmempty ''out'')
     [''http://example.com/docs'', ''http://example.com/gone''] = (1, docs_first_run)"
proof -
  let ?init = "PDFScraper_init fmempty ''out''"
  have h: "http_get acquirer_env ''http://example.com/gone'' = None \<or>
           (\<exists>response. http_get acquirer_env ''http://example.com/gone'' = Some response \<and>
              (status_code response \<noteq> 200 \<or>
               extract_pdf_links acquirer_env (text_of response) ''http://example.com/gone'' = None))"
    by (simp add: acquirer_env_def page_response_def)
  have d: "scrape_page acquirer_env ?init ''http://example.com/docs'' = (1, docs_first_run)"
    by (simp add: acquirer_simps docs_first_run_def)
  note t = failing_page_isolated[OF h, of ?init "[]" "''http://example.com/docs''" "[]"]
  note u = failing_page_isolated[OF h, of ?init "[''http://example.com/docs'']"]
  from t have 1: "scrape_page acquirer_env ?init ''http://example.com/gone'' = (0, ?init)"
    by (rule conjunct1)
  from t[THEN conjunct2, THEN conjunct2] d
  have 2: "scrape_multiple_pages acquirer_env ?init
     [''http://example.com/gone'', ''http://example.com/docs''] = (1, docs_first_run)"
    by simp
  from u[THEN conjunct2, THEN conjunct1] d
  have 3: "scrape_multiple_pages acquirer_env ?init
     [''http://example.com/docs'', ''http://example.com/gone''] = (1, docs_first_run)"
    by simp
  show ?thesis by (intro conjI 1 d 2 3)
qed

text \<open>
  C7. When the digest of the fetched content is already in the content hash set,
  \<open>download_pdf\<close> returns \<open>False\<close> and the scraper after the call is the scraper before
  it: the download history in memory, the history file and the hash set are unchanged,
  and the file it wrote is gone (its path names no file).
\<close>

theorem duplicate_content_discarded:
  assumes "url \<notin> downloaded_urls self"
    and "http_get e url = Some response"
    and "status_code response = 200"
    and "default_filename e url response filename0 = Some filename1"
    and "md5_hexdigest e (written_bytes response) \<in> downloaded_hashes self"
  shows "download_pdf e self url filename0 = (False, self) \<and>
         path_join (output_dir self) (resolved_filename self filename1) \<notin> fmdom' (files self)"
  using assms by (rule download_pdf_duplicate)

theorem duplicate_content_discarded_witness:
  "download_pdf acquirer_env docs_first_run ''http://example.com/copy.pdf'' None = (False, docs_first_run) \<and>
   resolved_filename docs_first_run ''copy.pdf'' = ''copy.pdf'' \<and>
   ''out/copy.pdf'' \<notin> fmdom' (files docs_first_run)"
proof -
  have 1: "''http://example.com/copy.pdf'' \<notin> downloaded_urls docs_first_run"
    by (simp add: docs_first_run_def)
  have 2: "http_get acquirer_env ''http://example.com/copy.pdf'' = Some (pdf_response ''%PDF-A'')"
    by (simp add: acquirer_env_def)
  have 3: "status_code (pdf_response ''%PDF-A'') = 200"
    by (simp add: pdf_response_def)
  have 4: "default_filename acquirer_env ''http://example.com/copy.pdf'' (pdf_response ''%PDF-A'') None
             = Some ''copy.pdf''"
    by (simp add: acquirer_simps)
  have 5: "md5_hexdigest acquirer_env (written_bytes (pdf_response ''%PDF-A'')) \<in> downloaded_hashes docs_first_run"
    by (simp add: acquirer_simps docs_first_run_def)
  have 6: "resolved_filename docs_first_run ''copy.pdf'' = ''copy.pdf''"
    by (simp add: acquirer_simps docs_first_run_def)
  from duplicate_content_discarded[OF 1 2 3 4 5] 6 show ?thesis
    by (simp add: docs_first_run_def path_join_def)
qed

theorem history_round_trip_witness:
  "''http://example.com/b.pdf'' \<notin> downloaded_urls (PDFScraper_init (files docs_first_run) ''out'') \<and>
   ''http://example.com/b.pdf'' \<in> downloaded_urls (PDFScraper_init
      (files (save_url_to_history docs_first_run ''http://example.com/b.pdf'')) ''out'')"
proof -
  have 1: "''http://example.com/b.pdf'' \<notin> downloaded_urls (PDFScraper_init (files docs_first_run) ''out'')"
    by (simp add: docs_first_run_def PDFScraper_init_def Let_def path_join_def readlines_def
        strip_def is_space_def)
  have "''http://example.com/b.pdf'' \<in> downloaded_urls (PDFScraper_init
      (files (save_url_to_history docs_first_run ''http://example.com/b.pdf'')) (output_dir docs_first_run))"
    by (rule history_round_trip) (simp_all add: docs_first_run_def path_join_def is_space_def)
  then have 2: "''http://example.com/b.pdf'' \<in> downloaded_urls (PDFScraper_init
      (files (save_url_to_history docs_first_run ''http://example.com/b.pdf'')) ''out'')"
    by (simp add: docs_first_run_def)
  show ?thesis by (intro conjI 1 2)
qed

text \<open>
  C6. A download never overwrites a file: every file that exists before \<open>download_pdf\<close>,
  or before a whole run of \<open>scrape_multiple_pages\<close>, has the same content after it, but
  for the history file, which is only appended to. A stored document is written to a path
  that named no file. The name it gets ends in \<open>.pdf\<close> (in any case of the letters, as
  line 74 tests it), and it is the chosen name, or, when that one is taken, the stem with
  \<open>_k.pdf\<close> for the first \<open>k\<close> from 1 on that is free.
\<close>

theorem acquirer_never_overwrites:
  assumes "history_file self = path_join (output_dir self) ''download_history.txt''"
  shows
    "(download_pdf e self url filename0 = (ok, self1) \<longrightarrow>
        (\<forall>p c. fmlookup (files self) p = Some c \<longrightarrow>
           (if p = history_file self then (\<exists>more. fmlookup (files self1) p = Some (c @ more))
            else fmlookup (files self1) p = Some c))) \<and>
     (scrape_multiple_pages e self urls = (n, self2) \<longrightarrow>
        (\<forall>p c. fmlookup (files self) p = Some c \<longrightarrow>
           (if p = history_file self then (\<exists>more. fmlookup (files self2) p = Some (c @ more))
            else fmlookup (files self2) p = Some c))) \<and>
     (download_pdf e self url filename0 = (True, self1) \<longrightarrow>
        (\<exists>response filename. http_get e url = Some response \<and>
           default_filename e url response filename0 = Some filename \<and>
           path_join (output_dir self) (resolved_filename self filename) \<notin> fmdom' (files self) \<and>
           fmlookup (files self1) (path_join (output_dir self) (resolved_filename self filename))
             = Some (written_bytes response))) \<and>
     endswith (lower (resolved_filename self filename1)) ''.pdf'' \<and>
     (resolved_filename self filename1 = with_pdf_extension filename1 \<or>
      path_join (output_dir self) (with_pdf_extension filename1) \<in> fmdom' (files self) \<and>
      (\<exists>k\<ge>1. resolved_filename self filename1 = numbered (replace_pdf (with_pdf_extension filename1)) k \<and>
         (\<forall>j. 1 \<le> j \<and> j < k \<longrightarrow>
            path_join (output_dir self) (numbered (replace_pdf (with_pdf_extension filename1)) j)
              \<in> fmdom' (files self))))"
proof (intro conjI impI)
  have wf: "wf_scraper self" using assms by (simp add: wf_scraper_def)
  {
    assume "download_pdf e self url filename0 = (ok, self1)"
    from download_pdf_keeps[OF wf this]
    show "\<forall>p c. fmlookup (files self) p = Some c \<longrightarrow>
           (if p = history_file self then (\<exists>more. fmlookup (files self1) p = Some (c @ more))
            else fmlookup (files self1) p = Some c)"
      by (simp add: keeps_def)
  }
  {
    assume "scrape_multiple_pages e self urls = (n, self2)"
    from scrape_multiple_pages_keeps[OF wf this]
    show "\<forall>p c. fmlookup (files self) p = Some c \<longrightarrow>
           (if p = history_file self then (\<exists>more. fmlookup (files self2) p = Some (c @ more))
            else fmlookup (files self2) p = Some c)"
      by (simp add: keeps_def)
  }
  {
    assume t: "download_pdf e self url filename0 = (True, self1)"
    from download_pdf_outcomes[OF wf, of e url filename0] t
    obtain response filename where r: "http_get e url = Some response"
      "default_filename e url response filename0 = Some filename"
      "self1 = stored e self url response filename"
      by auto
    have "fmlookup (files (stored e self url response filename))
            (path_join (output_dir self) (resolved_filename self filename)) = Some (written_bytes response)"
      using resolved_path_not_history[OF wf, of filename] by (simp add: stored_def)
    with r resolved_filename_free[of self filename]
    show "\<exists>response filename. http_get e url = Some response \<and>
           default_filename e url response filename0 = Some filename \<and>
           path_join (output_dir self) (resolved_filename self filename) \<notin> fmdom' (files self) \<and>
           fmlookup (files self1) (path_join (output_dir self) (resolved_filename self filename))
             = Some (written_bytes response)"
      by blast
  }
  show "endswith (lower (resolved_filename self filename1)) ''.pdf''"
    by (rule resolved_filename_pdf)
  show "resolved_filename self filename1 = with_pdf_extension filename1 \<or>
      path_join (output_dir self) (with_pdf_extension filename1) \<in> fmdom' (files self) \<and>
      (\<exists>k\<ge>1. resolved_filename self filename1 = numbered (replace_pdf (with_pdf_extension filename1)) k \<and>
         (\<forall>j. 1 \<le> j \<and> j < k \<longrightarrow>
            path_join (output_dir self) (numbered (replace_pdf (with_pdf_extension filename1)) j)
              \<in> fmdom' (files self)))"
    using unused_filename_cases[of "files self" "output_dir self"
        "replace_pdf (with_pdf_extension filename1)" "with_pdf_extension filename1" 1]
    by (auto simp: resolved_filename_def Let_def)
qed

theorem acquirer_never_overwrites_witness:
  "download_pdf acquirer_env taken_dir ''http://example.com/a.pdf'' None =
     (True, stored acquirer_env taken_dir ''http://example.com/a.pdf'' (pdf_response ''%PDF-A'') ''a.pdf'') \<and>
   resolved_filename taken_dir ''a.pdf'' = ''a_2.pdf'' \<and>
   fmlookup (files (stored acquirer_env taken_dir ''http://example.com/a.pdf'' (pdf_response ''%PDF-A'') ''a.pdf''))
     ''out/a.pdf'' = Some ''old'' \<and>
   fmlookup (files (stored acquirer_env taken_dir ''http://example.com/a.pdf'' (pdf_response ''%PDF-A'') ''a.pdf''))
     ''out/a_1.pdf'' = Some ''older'' \<and>
   endswith (lower (resolved_filename taken_dir ''a.pdf'')) ''.pdf''"
proof -
  let ?S = "stored acquirer_env taken_dir ''http://example.com/a.pdf'' (pdf_response ''%PDF-A'') ''a.pdf''"
  have h: "history_file taken_dir = path_join (output_dir taken_dir) ''download_history.txt''"
    by (simp add: taken_dir_def PDFScraper_init_def Let_def)
  have d: "download_pdf acquirer_env taken_dir ''http://example.com/a.pdf'' None = (True, ?S)"
    by (rule download_pdf_store) (simp_all add: taken_dir_def acquirer_simps wf_scraper_def)
  have r: "resolved_filename taken_dir ''a.pdf'' = ''a_2.pdf''"
    by (simp add: taken_dir_def acquirer_simps)
  have l: "fmlookup (files taken_dir) ''out/a.pdf'' = Some ''old''"
    "fmlookup (files taken_dir) ''out/a_1.pdf'' = Some ''older''"
    by (simp_all add: taken_dir_def PDFScraper_init_def Let_def)
  have n: "''out/a.pdf'' \<noteq> history_file taken_dir" "''out/a_1.pdf'' \<noteq> history_file taken_dir"
    by (simp_all add: taken_dir_def PDFScraper_init_def Let_def path_join_def)
  note c = acquirer_never_overwrites[OF h, of acquirer_env "''http://example.com/a.pdf''" None True ?S "[]" 0 taken_dir "''a.pdf''"]
  have keep: "fmlookup (files ?S) p = Some c" if "fmlookup (files taken_dir) p = Some c"
    and "p \<noteq> history_file taken_dir" for p c
    using c[THEN conjunct1, rule_format, OF d that(1)] that(2) by simp
  have pdf: "endswith (lower (resolved_filename taken_dir ''a.pdf'')) ''.pdf''"
    using c by blast
  from d r keep[OF l(1) n(1)] keep[OF l(2) n(2)] pdf show ?thesis by blast
qed

section \<open>The traversal\<close>

lemmas crawl_simps =
  eval_simps crawl_env_def page_response_def WebCrawler_init_def crawl_start_def main_step_def
  start_step_def worker_step_def fetch_links_def is_valid_url_def finish_def write_urls_def

lemma task_within_mono: "task_within b A t \<Longrightarrow> A \<subseteq> B \<Longrightarrow> task_within b B t"
  by (auto simp: task_within_def)

lemma task_within_simps [simp]:
  "task_within b A (Checked url) \<longleftrightarrow> url \<in> insert b A"
  "task_within b A (Fetching url) \<longleftrightarrow> url \<in> insert b A"
  "task_within b A (Scanning url hrefs page_urls) \<longleftrightarrow> url \<in> insert b A \<and> page_urls \<subseteq> A"
  "task_within b A (Adding url full_url hrefs page_urls) \<longleftrightarrow> url \<in> insert b A \<and> page_urls \<subseteq> A"
  by (auto simp: task_within_def)

lemma worker_step_cases:
  assumes "worker_step e t s = Some s'"
  obtains N where "pc s = InPool" and "running s = add_mset t N"
    and "case task_step e (crawler s) (depth s) t of
           (self, Continue t') \<Rightarrow> s' = s\<lparr>crawler := self, running := add_mset t' N\<rparr>
         | (self, Return new_urls) \<Rightarrow>
             s' = s\<lparr>crawler := self, running := N, next_urls := next_urls s \<union> new_urls\<rparr>
         | (self, Raise) \<Rightarrow> s' = s\<lparr>crawler := self, running := N\<rparr>"
proof -
  from assms have p: "pc s = InPool" and t: "t \<in># running s"
    by (auto simp: worker_step_def split: if_splits)
  from t obtain N where N: "running s = add_mset t N" by (blast dest: multi_member_split)
  with assms p have "case task_step e (crawler s) (depth s) t of
           (self, Continue t') \<Rightarrow> s' = s\<lparr>crawler := self, running := add_mset t' N\<rparr>
         | (self, Return new_urls) \<Rightarrow>
             s' = s\<lparr>crawler := self, running := N, next_urls := next_urls s \<union> new_urls\<rparr>
         | (self, Raise) \<Rightarrow> s' = s\<lparr>crawler := self, running := N\<rparr>"
    by (auto simp: worker_step_def split: prod.splits outcome.splits)
  with p N show ?thesis by (rule that)
qed

lemma run_invariant:
  assumes "\<And>ev s s'. P s \<Longrightarrow> step e ev s = Some s' \<Longrightarrow> P s'"
    and "P s" and "run e evs s = Some s'"
  shows "P s'"
  using assms(2,3)
proof (induction evs arbitrary: s)
  case Nil
  then show ?case by simp
next
  case (Cons ev evs)
  then show ?case by (auto split: option.splits dest: assms(1))
qed

lemma discovered_inv_main:
  "discovered_inv c s \<Longrightarrow> main_step s = Some s' \<Longrightarrow> discovered_inv c s'"
  by (auto simp: discovered_inv_def same_config_def main_step_def finish_def
      split: pc.splits if_splits)

lemma discovered_inv_start:
  "discovered_inv c s \<Longrightarrow> start_step url s = Some s' \<Longrightarrow> discovered_inv c s'"
  by (auto simp: discovered_inv_def same_config_def start_step_def split: if_splits) blast

lemma discovered_inv_worker:
  assumes "discovered_inv c s" and "worker_step e t s = Some s'"
  shows "discovered_inv c s'"
  using assms(2)
proof (rule worker_step_cases)
  fix N
  assume "pc s = InPool" and N: "running s = add_mset t N"
    and c: "case task_step e (crawler s) (depth s) t of
           (self, Continue t') \<Rightarrow> s' = s\<lparr>crawler := self, running := add_mset t' N\<rparr>
         | (self, Return new_urls) \<Rightarrow>
             s' = s\<lparr>crawler := self, running := N, next_urls := next_urls s \<union> new_urls\<rparr>
         | (self, Raise) \<Rightarrow> s' = s\<lparr>crawler := self, running := N\<rparr>"
  show ?thesis
  proof (cases t)
    case (Checked url)
    with assms(1) N c show ?thesis
      by (auto simp: discovered_inv_def same_config_def split: if_splits)
  next
    case (Fetching url)
    with assms(1) N c show ?thesis
      by (auto simp: discovered_inv_def same_config_def split: option.splits)
  next
    case (Scanning url hrefs page_urls)
    with assms(1) N c show ?thesis
      by (cases hrefs) (auto simp: discovered_inv_def same_config_def split: option.splits if_splits)
  next
    case (Adding url full_url hrefs page_urls)
    with assms(1) N c show ?thesis
      by (auto simp: discovered_inv_def same_config_def intro: task_within_mono)
  qed
qed

lemma discovered_inv_step:
  "discovered_inv c s \<Longrightarrow> step e ev s = Some s' \<Longrightarrow> discovered_inv c s'"
  by (cases ev) (auto intro: discovered_inv_main discovered_inv_start discovered_inv_worker)

lemma discovered_inv_start_state:
  "visited_urls c = {} \<Longrightarrow> all_urls c = {} \<Longrightarrow> discovered_inv c (crawl_start c old_file)"
  by (simp add: discovered_inv_def same_config_def crawl_start_def)

lemma WebCrawler_init_fields:
  "WebCrawler_init e base out md mp = Some c \<Longrightarrow>
   base_url c = base \<and> visited_urls c = {} \<and> all_urls c = {} \<and> max_depth c = md \<and> max_pages c = mp \<and>
   (\<exists>parsed. urlparse e base = Some parsed \<and> netloc parsed = domain c \<and> domain c \<noteq> [])"
  by (auto simp: WebCrawler_init_def split: option.splits if_splits)

lemma is_valid_url_domain: "domain a = domain b \<Longrightarrow> is_valid_url e a url = is_valid_url e b url"
  by (cases "urlparse e url") (simp_all add: is_valid_url_def)

lemma eligible_inv_step:
  assumes "eligible_inv e c s" and "step e ev s = Some s'"
  shows "eligible_inv e c s'"
proof (cases ev)
  case Main
  with assms show ?thesis
    by (auto simp: eligible_inv_def same_config_def main_step_def finish_def split: pc.splits if_splits)
next
  case (Start url)
  with assms show ?thesis
    by (auto simp: eligible_inv_def same_config_def start_step_def split: if_splits)
next
  case (Step t)
  with assms(2) have "worker_step e t s = Some s'" by simp
  then show ?thesis
  proof (rule worker_step_cases)
    fix N
    assume "pc s = InPool" and N: "running s = add_mset t N"
      and c: "case task_step e (crawler s) (depth s) t of
             (self, Continue t') \<Rightarrow> s' = s\<lparr>crawler := self, running := add_mset t' N\<rparr>
           | (self, Return new_urls) \<Rightarrow>
               s' = s\<lparr>crawler := self, running := N, next_urls := next_urls s \<union> new_urls\<rparr>
           | (self, Raise) \<Rightarrow> s' = s\<lparr>crawler := self, running := N\<rparr>"
    show ?thesis
    proof (cases t)
      case (Checked url)
      with assms(1) N c show ?thesis
        by (auto simp: eligible_inv_def same_config_def split: if_splits)
    next
      case (Fetching url)
      with assms(1) N c show ?thesis
        by (auto simp: eligible_inv_def same_config_def split: option.splits)
    next
      case (Scanning url hrefs page_urls)
      show ?thesis
      proof (cases hrefs)
        case Nil
        with Scanning assms(1) N c show ?thesis
          by (auto simp: eligible_inv_def same_config_def)
      next
        case (Cons href rest)
        from assms(1) have d: "domain (crawler s) = domain c"
          by (simp add: eligible_inv_def same_config_def)
        from Cons Scanning assms(1) N c show ?thesis
          by (auto simp: eligible_inv_def same_config_def is_valid_url_domain[OF d]
              split: option.splits if_splits)
      qed
    next
      case (Adding url full_url hrefs page_urls)
      with assms(1) N c show ?thesis
        by (auto simp: eligible_inv_def same_config_def)
    qed
  qed
qed

lemma budget_inv_step:
  assumes "budget_inv c s" and "step e ev s = Some s'"
  shows "budget_inv c s'"
proof (cases ev)
  case Main
  with assms show ?thesis
    by (auto simp: budget_inv_def same_config_def main_step_def finish_def split: pc.splits if_splits)
next
  case (Start url)
  with assms show ?thesis
    by (auto simp: budget_inv_def same_config_def start_step_def split: if_splits)
next
  case (Step t)
  with assms(2) have "worker_step e t s = Some s'" by simp
  then show ?thesis
  proof (rule worker_step_cases)
    fix N
    assume "pc s = InPool" and N: "running s = add_mset t N"
      and c: "case task_step e (crawler s) (depth s) t of
             (self, Continue t') \<Rightarrow> s' = s\<lparr>crawler := self, running := add_mset t' N\<rparr>
           | (self, Return new_urls) \<Rightarrow>
               s' = s\<lparr>crawler := self, running := N, next_urls := next_urls s \<union> new_urls\<rparr>
           | (self, Raise) \<Rightarrow> s' = s\<lparr>crawler := self, running := N\<rparr>"
    from assms(1) N have cfg: "same_config c s" and fin: "finite (visited_urls (crawler s))"
      and sz: "size N \<le> 9"
      and b: "int (card (visited_urls (crawler s))) + int (size (filter_mset is_fetching (add_mset t N)))
                \<le> max 0 (max_pages c) + 9"
      by (auto simp: budget_inv_def)
    have le: "int (size (filter_mset is_fetching N)) \<le> 9"
      using size_filter_mset_lesseq[of is_fetching N] sz by linarith
    show ?thesis
    proof (cases t)
      case (Checked url)
      show ?thesis
      proof (cases "depth s > max_depth (crawler s) \<or> int (card (visited_urls (crawler s))) \<ge> max_pages (crawler s)")
        case True
        with Checked c have "s' = s\<lparr>crawler := crawler s, running := N, next_urls := next_urls s \<union> {}\<rparr>"
          by simp
        with cfg fin sz b Checked show ?thesis
          by (simp add: budget_inv_def same_config_def)
      next
        case False
        with Checked c have s': "s' = s\<lparr>crawler := crawler s, running := add_mset (Fetching url) N\<rparr>"
          by simp
        from False cfg have "int (card (visited_urls (crawler s))) + 1 \<le> max_pages c"
          by (simp add: same_config_def)
        with le have "int (card (visited_urls (crawler s))) + (1 + int (size (filter_mset is_fetching N)))
            \<le> max 0 (max_pages c) + 9" by linarith
        with s' cfg fin sz show ?thesis
          by (simp add: budget_inv_def same_config_def)
      qed
    next
      case (Fetching url)
      have ins: "int (card (insert url (visited_urls (crawler s)))) \<le> int (card (visited_urls (crawler s))) + 1"
        using card_insert_le_m1[of 1 "visited_urls (crawler s)" url] by (simp add: card_insert_if fin)
      from Fetching b have b': "int (card (visited_urls (crawler s))) + 1 + int (size (filter_mset is_fetching N))
                \<le> max 0 (max_pages c) + 9" by simp
      show ?thesis
      proof (cases "fetch_links e url")
        case None
        with Fetching c have "s' = s\<lparr>crawler := crawler s, running := N, next_urls := next_urls s \<union> {}\<rparr>"
          by simp
        with cfg fin sz b' show ?thesis
          by (simp add: budget_inv_def same_config_def)
      next
        case (Some hrefs)
        with Fetching c have "s' = s\<lparr>crawler := (crawler s)\<lparr>visited_urls := insert url (visited_urls (crawler s))\<rparr>,
            running := add_mset (Scanning url hrefs {}) N\<rparr>"
          by simp
        moreover from ins b' have "int (card (insert url (visited_urls (crawler s)))) +
            int (size (filter_mset is_fetching N)) \<le> max 0 (max_pages c) + 9" by linarith
        ultimately show ?thesis using cfg fin sz
          by (simp add: budget_inv_def same_config_def)
      qed
    next
      case (Scanning url hrefs page_urls)
      with assms(1) N c show ?thesis
        by (cases hrefs) (auto simp: budget_inv_def same_config_def split: option.splits if_splits)
    next
      case (Adding url full_url hrefs page_urls)
      with assms(1) N c show ?thesis
        by (auto simp: budget_inv_def same_config_def)
    qed
  qed
qed

lemma is_valid_url_TrueD:
  assumes "is_valid_url e c url = Some True"
  shows "\<exists>parsed. urlparse e url = Some parsed \<and> netloc parsed = domain c"
    and "\<not> list_ex (\<lambda>ext. endswith url ext) filtered_extensions"
  using assms by (cases "urlparse e url"; simp add: is_valid_url_def)+

lemma crawl_invariants:
  assumes "WebCrawler_init e base out md mp = Some c"
    and "run e evs (crawl_start c old_file) = Some s"
  shows "discovered_inv c s" and "eligible_inv e c s" and "budget_inv c s"
proof -
  note f = WebCrawler_init_fields[OF assms(1)]
  from f have "discovered_inv c (crawl_start c old_file)" by (simp add: discovered_inv_start_state)
  from run_invariant[of "discovered_inv c" e, OF discovered_inv_step this assms(2)]
  show "discovered_inv c s" .
  from f have "eligible_inv e c (crawl_start c old_file)"
    by (simp add: eligible_inv_def same_config_def crawl_start_def)
  from run_invariant[of "eligible_inv e c" e, OF eligible_inv_step this assms(2)]
  show "eligible_inv e c s" .
  from f have "budget_inv c (crawl_start c old_file)"
    by (simp add: budget_inv_def same_config_def crawl_start_def)
  from run_invariant[of "budget_inv c" e, OF budget_inv_step this assms(2)]
  show "budget_inv c s" .
qed







lemma write_urls_empty: "write_urls {} = []"
  by (simp add: write_urls_def)

lemma card_le_one: "A \<subseteq> {b} \<Longrightarrow> card A \<le> 1"
  using card_mono[of "{b}" A] by simp

lemma lone_main:
  assumes "lone_inv e c s" and "main_step s = Some s'"
  shows "lone_inv e c s' \<and> potential n s' < potential n s"
proof (cases "pc s")
  case AtFor
  from assms(1) have "current_urls s \<subseteq> {base_url c}" by (simp add: lone_inv_def)
  then have "card (current_urls s) \<le> 1" by (rule card_le_one)
  then consider "card (current_urls s) = 0" | "card (current_urls s) = 1" by linarith
  then show ?thesis
  proof cases
    case 1
    with AtFor assms show ?thesis
      by (auto simp: lone_inv_def same_config_def main_step_def finish_def potential_def
          write_urls_empty split: if_splits)
  next
    case 2
    with AtFor assms show ?thesis
      by (auto simp: lone_inv_def same_config_def main_step_def finish_def potential_def
          write_urls_empty split: if_splits)
  qed
next
  case InPool
  with assms show ?thesis
    by (auto simp: lone_inv_def same_config_def main_step_def finish_def potential_def
        write_urls_empty split: if_splits)
next
  case Done
  with assms show ?thesis by (simp add: main_step_def)
qed

lemma lone_start:
  assumes "lone_inv e c s" and "start_step url s = Some s'"
  shows "lone_inv e c s' \<and> potential n s' < potential n s"
proof -
  from assms(2) have p: "pc s = InPool" "url \<in> queue s"
    by (auto simp: start_step_def split: if_splits)
  with assms(1) have q: "queue s = {base_url c}" "url = base_url c"
    by (auto simp: lone_inv_def)
  from p q assms show ?thesis
    by (auto simp: lone_inv_def same_config_def start_step_def potential_def split: if_splits)
qed

lemma lone_worker:
  assumes nl: "no_in_domain_links e c" and inv: "lone_inv e c s"
    and w: "worker_step e t s = Some s'" and n: "n = start_links e c"
  shows "lone_inv e c s' \<and> potential n s' < potential n s"
  using w
proof (rule worker_step_cases)
  fix N
  assume p: "pc s = InPool" and N: "running s = add_mset t N"
    and c: "case task_step e (crawler s) (depth s) t of
           (self, Continue t') \<Rightarrow> s' = s\<lparr>crawler := self, running := add_mset t' N\<rparr>
         | (self, Return new_urls) \<Rightarrow>
             s' = s\<lparr>crawler := self, running := N, next_urls := next_urls s \<union> new_urls\<rparr>
         | (self, Raise) \<Rightarrow> s' = s\<lparr>crawler := self, running := N\<rparr>"
  from inv N have lt: "lone_task e c t" and rest: "\<forall>t\<in>#N. lone_task e c t"
    by (auto simp: lone_inv_def)
  show ?thesis
  proof (cases t)
    case (Checked url)
    with inv N c p show ?thesis
      by (auto simp: lone_inv_def same_config_def potential_def split: if_splits)
  next
    case (Fetching url)
    with lt have u: "url = base_url c" by simp
    show ?thesis
    proof (cases "fetch_links e url")
      case None
      with Fetching inv N c p show ?thesis
        by (auto simp: lone_inv_def same_config_def potential_def)
    next
      case (Some hrefs)
      with u n have "n = length hrefs" by (simp add: start_links_def)
      moreover from Some u have "\<exists>pre. fetch_links e (base_url c) = Some (pre @ hrefs)"
        by (intro exI[of _ "[]"]) simp
      ultimately show ?thesis using Some Fetching inv N c p u
        by (auto simp: lone_inv_def same_config_def potential_def)
    qed
  next
    case (Scanning url hrefs page_urls)
    with lt obtain pre where l: "url = base_url c" "page_urls = {}"
      "fetch_links e (base_url c) = Some (pre @ hrefs)" by auto
    show ?thesis
    proof (cases hrefs)
      case Nil
      with Scanning inv N c p l show ?thesis
        by (auto simp: lone_inv_def same_config_def potential_def)
    next
      case (Cons href rest')
      from l(3) Cons have next_pre: "\<exists>pre. fetch_links e (base_url c) = Some (pre @ rest')"
        by (intro exI[of _ "pre @ [href]"]) simp
      from inv have d: "domain (crawler s) = domain c" by (simp add: lone_inv_def same_config_def)
      have invalid: "is_valid_url e (crawler s) full_url \<noteq> Some True"
        if "urljoin e (base_url c) href = Some full_url" for full_url
      proof
        assume "is_valid_url e (crawler s) full_url = Some True"
        then obtain parsed where "urlparse e full_url = Some parsed" "netloc parsed = domain c"
          using d by (auto simp: is_valid_url_def split: option.splits)
        moreover from l(3) Cons have "href \<in> set (pre @ hrefs)" by simp
        ultimately show False using nl l(3) that unfolding no_in_domain_links_def by blast
      qed
      show ?thesis
      proof (cases "urljoin e (base_url c) href")
        case None
        with Cons Scanning inv N c p l show ?thesis
          by (auto simp: lone_inv_def same_config_def potential_def)
      next
        case (Some full_url)
        show ?thesis
        proof (cases "is_valid_url e (crawler s) full_url")
          case None
          with Some Cons Scanning inv N c p l show ?thesis
            by (auto simp: lone_inv_def same_config_def potential_def)
        next
          case v: (Some valid)
          with invalid[OF Some] have "\<not> valid" by simp
          with v Some Cons Scanning inv N c p l next_pre show ?thesis
            by (auto simp: lone_inv_def same_config_def potential_def)
        qed
      qed
    qed
  next
    case (Adding url full_url hrefs page_urls)
    with lt show ?thesis by simp
  qed
qed

lemma lone_step:
  assumes "no_in_domain_links e c" and "lone_inv e c s" and "step e ev s = Some s'"
  shows "lone_inv e c s' \<and> potential (start_links e c) s' < potential (start_links e c) s"
proof (cases ev)
  case Main
  with assms(3) have "main_step s = Some s'" by simp
  from lone_main[OF assms(2) this] show ?thesis .
next
  case (Start url)
  with assms(3) have "start_step url s = Some s'" by simp
  from lone_start[OF assms(2) this] show ?thesis .
next
  case (Step t)
  with assms(3) have "worker_step e t s = Some s'" by simp
  from lone_worker[OF assms(1,2) this refl] show ?thesis .
qed

lemma lone_run:
  assumes "no_in_domain_links e c"
  shows "lone_inv e c s \<Longrightarrow> run e evs s = Some s' \<Longrightarrow>
         lone_inv e c s' \<and> length evs + potential (start_links e c) s' \<le> potential (start_links e c) s"
proof (induction evs arbitrary: s)
  case Nil
  then show ?case by simp
next
  case (Cons ev evs)
  from Cons.prems(2) obtain s1 where s1: "step e ev s = Some s1" "run e evs s1 = Some s'"
    by (auto split: option.splits)
  from lone_step[OF assms Cons.prems(1) s1(1)]
  have 1: "lone_inv e c s1" "potential (start_links e c) s1 < potential (start_links e c) s" by auto
  from Cons.IH[OF 1(1) s1(2)] 1(2) show ?case by simp
qed

lemma worker_step_enabled: "pc s = InPool \<Longrightarrow> t \<in># running s \<Longrightarrow> \<exists>s'. worker_step e t s = Some s'"
  by (cases "task_step e (crawler s) (depth s) t")
    (auto simp: worker_step_def split: outcome.splits)

lemma progress:
  assumes "pc s \<noteq> Done"
  shows "\<exists>ev s'. step e ev s = Some s'"
proof (cases "pc s")
  case AtFor
  then have "\<exists>s'. step e Main s = Some s'" by (simp add: main_step_def)
  then show ?thesis by blast
next
  case InPool
  show ?thesis
  proof (cases "running s = {#}")
    case False
    then obtain t where "t \<in># running s" by (auto simp: multiset_nonemptyE)
    from worker_step_enabled[OF InPool this, of e] have "\<exists>s'. step e (Step t) s = Some s'" by simp
    then show ?thesis by blast
  next
    case True
    show ?thesis
    proof (cases "queue s = {}")
      case q: True
      with True InPool have "\<exists>s'. step e Main s = Some s'" by (simp add: main_step_def)
      then show ?thesis by blast
    next
      case False
      then obtain url where "url \<in> queue s" by blast
      with True InPool have "\<exists>s'. step e (Start url) s = Some s'" by (simp add: start_step_def)
      then show ?thesis by blast
    qed
  qed
next
  case Done
  with assms show ?thesis by simp
qed

lemma run_append:
  "run e (xs @ ys) s = (case run e xs s of None \<Rightarrow> None | Some s1 \<Rightarrow> run e ys s1)"
  by (induction xs arbitrary: s) (auto split: option.splits)

lemma finite_held:
  assumes "discovered_inv c s"
  shows "finite (queue s)" and "finite (current_urls s)" and "finite (next_urls s)"
proof -
  from assms have f: "finite (insert (base_url c) (all_urls (crawler s)))"
    by (simp add: discovered_inv_def)
  from assms have "queue s \<subseteq> insert (base_url c) (all_urls (crawler s))"
    and "current_urls s \<subseteq> insert (base_url c) (all_urls (crawler s))"
    and "next_urls s \<subseteq> insert (base_url c) (all_urls (crawler s))"
    by (auto simp: discovered_inv_def)
  with f show "finite (queue s)" and "finite (current_urls s)" and "finite (next_urls s)"
    by (auto intro: finite_subset)
qed

lemma measure_main:
  assumes "discovered_inv c s" and "level_inv c s" and "main_step s = Some s'"
  shows "(crawl_measure e c s', crawl_measure e c s) \<in> crawl_order \<and> level_inv c s'"
proof (cases "pc s")
  case AtFor
  with assms show ?thesis
    by (auto simp: level_inv_def same_config_def main_step_def finish_def crawl_measure_def
        split: if_splits)
next
  case InPool
  from assms(1) have "finite (next_urls s)" by (rule finite_held)
  with InPool assms show ?thesis
    by (auto simp: level_inv_def same_config_def main_step_def finish_def crawl_measure_def
        split: if_splits)
next
  case Done
  with assms show ?thesis by (simp add: main_step_def)
qed

lemma measure_start:
  assumes "level_inv c s" and "start_step url s = Some s'"
  shows "(crawl_measure e c s', crawl_measure e c s) \<in> crawl_order \<and> level_inv c s'"
proof -
  from assms(2) have p: "pc s = InPool" "url \<in> queue s"
    by (auto simp: start_step_def split: if_splits)
  from assms(1) have f: "finite (queue s)" by (simp add: level_inv_def)
  from f p(2) have q: "sum (\<lambda>url. page_fuel e url + 3) (queue s) =
      (page_fuel e url + 3) + sum (\<lambda>url. page_fuel e url + 3) (queue s - {url})"
    by (rule sum.remove)
  from p q f assms show ?thesis
    by (auto simp: level_inv_def same_config_def start_step_def crawl_measure_def level_fuel_def
        split: if_splits)
qed

lemma measure_worker:
  assumes "level_inv c s" and "worker_step e t s = Some s'"
  shows "(crawl_measure e c s', crawl_measure e c s) \<in> crawl_order \<and> level_inv c s'"
  using assms(2)
proof (rule worker_step_cases)
  fix N
  assume p: "pc s = InPool" and N: "running s = add_mset t N"
    and c: "case task_step e (crawler s) (depth s) t of
           (self, Continue t') \<Rightarrow> s' = s\<lparr>crawler := self, running := add_mset t' N\<rparr>
         | (self, Return new_urls) \<Rightarrow>
             s' = s\<lparr>crawler := self, running := N, next_urls := next_urls s \<union> new_urls\<rparr>
         | (self, Raise) \<Rightarrow> s' = s\<lparr>crawler := self, running := N\<rparr>"
  show ?thesis
  proof (cases t)
    case (Checked url)
    with assms(1) N c p show ?thesis
      by (auto simp: level_inv_def same_config_def crawl_measure_def level_fuel_def split: if_splits)
  next
    case (Fetching url)
    with assms(1) N c p show ?thesis
      by (auto simp: level_inv_def same_config_def crawl_measure_def level_fuel_def page_fuel_def
          split: option.splits)
  next
    case (Scanning url hrefs page_urls)
    with assms(1) N c p show ?thesis
      by (cases hrefs)
        (auto simp: level_inv_def same_config_def crawl_measure_def level_fuel_def
          split: option.splits if_splits)
  next
    case (Adding url full_url hrefs page_urls)
    with assms(1) N c p show ?thesis
      by (auto simp: level_inv_def same_config_def crawl_measure_def level_fuel_def)
  qed
qed

lemma measure_step:
  assumes "discovered_inv c s" and "level_inv c s" and "step e ev s = Some s'"
  shows "(crawl_measure e c s', crawl_measure e c s) \<in> crawl_order \<and> level_inv c s'"
proof (cases ev)
  case Main
  with assms(3) have "main_step s = Some s'" by simp
  from measure_main[OF assms(1,2) this] show ?thesis .
next
  case (Start url)
  with assms(3) have "start_step url s = Some s'" by simp
  from measure_start[OF assms(2) this] show ?thesis .
next
  case (Step t)
  with assms(3) have "worker_step e t s = Some s'" by simp
  from measure_worker[OF assms(2) this] show ?thesis .
qed

lemma wf_crawl_order: "wf (inv_image crawl_order (crawl_measure e c))"
  by (intro wf_inv_image wf_lex_prod wf_less_than)

lemma crawl_completes:
  "discovered_inv c s \<Longrightarrow> level_inv c s \<Longrightarrow> \<exists>evs s'. run e evs s = Some s' \<and> pc s' = Done"
proof (induction s rule: wf_induct_rule[OF wf_crawl_order[of e c]])
  case (1 s)
  show ?case
  proof (cases "pc s = Done")
    case True
    then have "run e [] s = Some s \<and> pc s = Done" by simp
    then show ?thesis by blast
  next
    case False
    from progress[OF this] obtain ev s1 where s1: "step e ev s = Some s1" by blast
    from measure_step[OF "1.prems" s1]
    have m: "(s1, s) \<in> inv_image crawl_order (crawl_measure e c)" and l: "level_inv c s1"
      by simp_all
    from discovered_inv_step[OF "1.prems"(1) s1] have d: "discovered_inv c s1" .
    from "1.IH"[OF m d l] obtain evs s' where "run e evs s1 = Some s'" "pc s' = Done" by blast
    with s1 have "run e (ev # evs) s = Some s' \<and> pc s' = Done" by simp
    then show ?thesis by blast
  qed
qed


lemma level_inv_start_state: "level_inv c (crawl_start c old_file)"
  by (simp add: level_inv_def same_config_def crawl_start_def)

lemma crawl_level_inv:
  assumes "WebCrawler_init e base out md mp = Some c"
    and "run e evs (crawl_start c old_file) = Some s"
  shows "level_inv c s"
proof (rule run_invariant[of "\<lambda>s. discovered_inv c s \<and> level_inv c s" e _ evs s, THEN conjunct2])
  from WebCrawler_init_fields[OF assms(1)]
  show "discovered_inv c (crawl_start c old_file) \<and> level_inv c (crawl_start c old_file)"
    by (simp add: discovered_inv_start_state level_inv_start_state)
  show "run e evs (crawl_start c old_file) = Some s" by (rule assms(2))
next
  fix ev s s'
  assume "discovered_inv c s \<and> level_inv c s" and "step e ev s = Some s'"
  then show "discovered_inv c s' \<and> level_inv c s'"
    by (blast intro: discovered_inv_step dest: measure_step)
qed

lemma crawl_returns:
  assumes "WebCrawler_init e base out md mp = Some c"
    and "run e evs (crawl_start c old_file) = Some s"
  shows "\<exists>evs' s'. run e (evs @ evs') (crawl_start c old_file) = Some s' \<and> pc s' = Done"
proof -
  from crawl_completes[OF crawl_invariants(1)[OF assms] crawl_level_inv[OF assms], of e]
  obtain evs' s' where "run e evs' s = Some s'" "pc s' = Done" by blast
  with assms(2) have "run e (evs @ evs') (crawl_start c old_file) = Some s' \<and> pc s' = Done"
    by (simp add: run_append)
  then show ?thesis by blast
qed


lemma home_init:
  "WebCrawler_init crawl_env ''http://example.com/'' ''out.txt'' 10 500 = Some home_crawler"
  by (simp add: crawl_simps home_crawler_def)

lemma home_run_final:
  "run crawl_env home_run (crawl_start home_crawler old_file) = Some home_final"
  by (simp add: crawl_simps home_crawler_def home_run_def home_final_def insert_Diff_if)

lemma tight_init:
  "WebCrawler_init crawl_env ''http://example.com/'' ''out.txt'' 10 2 = Some tight_crawler"
  by (simp add: crawl_simps tight_crawler_def)

lemma tight_run_state:
  "run crawl_env tight_run (crawl_start tight_crawler None) = Some tight_state"
  by (simp add: crawl_simps tight_crawler_def tight_run_def home_run_def tight_state_def insert_Diff_if)

lemma links_init:
  "WebCrawler_init crawl_env ''http://example.com/links'' ''out.txt'' 10 500 = Some links_crawler"
  by (simp add: crawl_simps links_crawler_def)

lemma links_run_final:
  "run crawl_env links_run (crawl_start links_crawler old_file) = Some links_final"
  by (simp add: crawl_simps links_crawler_def links_run_def links_final_def insert_Diff_if)

lemma links_no_in_domain_links: "no_in_domain_links crawl_env links_crawler"
  by (simp add: no_in_domain_links_def crawl_simps links_crawler_def)

lemma pdf_init:
  "WebCrawler_init crawl_env ''http://example.com/report.pdf'' ''out.txt'' 10 500 = Some pdf_crawler"
  by (simp add: crawl_simps pdf_crawler_def)

lemma pdf_run_final:
  "run crawl_env pdf_run (crawl_start pdf_crawler old_file) = Some pdf_final"
  by (simp add: crawl_simps pdf_crawler_def pdf_run_def pdf_final_def insert_Diff_if)

text \<open>
  C1, as the code has it. At every point of every run of \<open>crawl\<close>, every URL in
  \<open>visited_urls\<close> is the start URL or is in \<open>all_urls\<close>: the states that \<open>run\<close> reaches
  are the states a run of \<open>crawl\<close> goes through, under every interleaving of its threads.
\<close>

theorem visited_within_discovered_or_start:
  assumes "WebCrawler_init e base out md mp = Some c"
    and "run e evs (crawl_start c old_file) = Some s"
  shows "visited_urls (crawler s) \<subseteq> insert base (all_urls (crawler s))"
proof -
  from WebCrawler_init_fields[OF assms(1)]
  have "discovered_inv c (crawl_start c old_file)" by (simp add: discovered_inv_start_state)
  from run_invariant[of "discovered_inv c" e, OF discovered_inv_step this assms(2)]
  show ?thesis using WebCrawler_init_fields[OF assms(1)] by (simp add: discovered_inv_def)
qed

theorem visited_within_discovered_or_start_witness:
  "run crawl_env home_run (crawl_start home_crawler None) = Some home_final \<and>
   visited_urls (crawler home_final)
     \<subseteq> insert ''http://example.com/'' (all_urls (crawler home_final))"
  by (intro conjI home_run_final visited_within_discovered_or_start[OF home_init home_run_final[of None]])

text \<open>
  C1 as stated fails for the start URL: \<open>crawl\<close> expands it and nothing adds it to
  \<open>all_urls\<close>. After the run from the home page it is in \<open>visited_urls\<close> and not in
  \<open>all_urls\<close>.
\<close>

theorem start_url_not_discovered_counterexample:
  "WebCrawler_init crawl_env ''http://example.com/'' ''out.txt'' 10 500 = Some home_crawler \<and>
   run crawl_env home_run (crawl_start home_crawler None) = Some home_final \<and>
   ''http://example.com/'' \<in> visited_urls (crawler home_final) \<and>
   ''http://example.com/'' \<notin> all_urls (crawler home_final) \<and>
   \<not> visited_urls (crawler home_final) \<subseteq> all_urls (crawler home_final)"
  by (simp add: home_init home_run_final) (simp add: home_final_def home_crawler_def)

text \<open>
  C2, as the code has it. When no anchor of the start page leads into the domain, every
  run of \<open>crawl\<close> keeps \<open>all_urls\<close> empty, expands no URL but the start URL, and stays in
  the first level: the loop variable is 0 throughout. The run has at most \<open>start_links + 6\<close>
  steps; as long as \<open>crawl\<close> has not returned, a step is possible, and the run can be
  continued until \<open>crawl\<close> returns; when it has returned, the output file is empty.
\<close>

theorem no_in_domain_links_one_level:
  assumes "WebCrawler_init e base out md mp = Some c"
    and "no_in_domain_links e c"
    and "run e evs (crawl_start c old_file) = Some s"
  shows "all_urls (crawler s) = {} \<and> visited_urls (crawler s) \<subseteq> {base} \<and> depth s = 0 \<and>
         length evs \<le> start_links e c + 6 \<and>
         (pc s = Done \<longrightarrow> disk s = Some []) \<and>
         (pc s \<noteq> Done \<longrightarrow> (\<exists>ev s'. step e ev s = Some s')) \<and>
         (\<exists>evs' s'. run e (evs @ evs') (crawl_start c old_file) = Some s' \<and> pc s' = Done)"
proof -
  note f = WebCrawler_init_fields[OF assms(1)]
  from f have "lone_inv e c (crawl_start c old_file)"
    by (simp add: lone_inv_def same_config_def crawl_start_def)
  from lone_run[OF assms(2) this assms(3)]
  have inv: "lone_inv e c s"
    and len: "length evs + potential (start_links e c) s \<le> potential (start_links e c) (crawl_start c old_file)"
    by auto
  from len have b: "length evs \<le> start_links e c + 6"
    by (simp add: potential_def crawl_start_def)
  note k = crawl_returns[OF assms(1,3)]
  from b inv f progress[of s e] k show ?thesis
    by (auto simp: lone_inv_def)
qed

theorem no_in_domain_links_one_level_witness:
  "no_in_domain_links crawl_env links_crawler \<and>
   run crawl_env links_run (crawl_start links_crawler None) = Some links_final \<and>
   all_urls (crawler links_final) = {} \<and>
   visited_urls (crawler links_final) \<subseteq> {''http://example.com/links''} \<and>
   depth links_final = 0 \<and>
   length links_run \<le> start_links crawl_env links_crawler + 6 \<and>
   length links_run = 7 \<and> start_links crawl_env links_crawler = 1 \<and>
   pc links_final = Done \<and> disk links_final = Some []"
proof -
  have d: "pc links_final = Done" by (simp add: links_final_def)
  have n: "length links_run = 7" by (simp add: links_run_def)
  have m: "start_links crawl_env links_crawler = 1"
    by (simp add: start_links_def crawl_simps links_crawler_def)
  note t = no_in_domain_links_one_level[OF links_init links_no_in_domain_links links_run_final[of None]]
  note t1 = t[THEN conjunct1]
  note t2 = t[THEN conjunct2, THEN conjunct1]
  note t3 = t[THEN conjunct2, THEN conjunct2, THEN conjunct1]
  note t4 = t[THEN conjunct2, THEN conjunct2, THEN conjunct2, THEN conjunct1]
  note t5 = t[THEN conjunct2, THEN conjunct2, THEN conjunct2, THEN conjunct2, THEN conjunct1,
      THEN mp, OF d]
  show ?thesis
    by (rule conjI[OF links_no_in_domain_links conjI[OF links_run_final conjI[OF t1
          conjI[OF t2 conjI[OF t3 conjI[OF t4 conjI[OF n conjI[OF m conjI[OF d t5]]]]]]]]])
qed

text \<open>
  C2 as stated fails: after the run from a page whose only link leaves the domain,
  \<open>all_urls\<close> is empty; the start URL is not in it.
\<close>

theorem no_in_domain_links_discovered_empty_counterexample:
  "WebCrawler_init crawl_env ''http://example.com/links'' ''out.txt'' 10 500 = Some links_crawler \<and>
   no_in_domain_links crawl_env links_crawler \<and>
   run crawl_env links_run (crawl_start links_crawler None) = Some links_final \<and>
   pc links_final = Done \<and>
   all_urls (crawler links_final) \<noteq> {''http://example.com/links''}"
  by (simp add: links_init links_no_in_domain_links links_run_final)
    (simp add: links_final_def links_crawler_def)

text \<open>
  C5, as the code has it. At every point of every run of \<open>crawl\<close>, every expanded URL is
  the start URL or has passed \<open>is_valid_url\<close>, and so has the URL of every call that is
  running; every expanded URL, the start URL too, has the domain of the crawler as its
  \<open>netloc\<close>; every expanded URL other than the start URL ends in none of the filtered
  extensions; and the expanded URLs are at most \<open>max_pages\<close> (0 when it is negative) plus
  9, one for each other thread of the pool.
\<close>

theorem expanded_urls_eligible_and_bounded:
  assumes "WebCrawler_init e base out md mp = Some c"
    and "run e evs (crawl_start c old_file) = Some s"
  shows "(\<forall>url\<in>visited_urls (crawler s). url = base \<or> is_valid_url e c url = Some True) \<and>
         (\<forall>url\<in>visited_urls (crawler s).
            \<exists>parsed. urlparse e url = Some parsed \<and> netloc parsed = domain c) \<and>
         (\<forall>url\<in>visited_urls (crawler s). url \<noteq> base \<longrightarrow>
            \<not> list_ex (\<lambda>ext. endswith url ext) [''.pdf'', ''.jpg'', ''.png'', ''.gif'', ''.css'', ''.js'']) \<and>
         int (card (visited_urls (crawler s))) \<le> max 0 mp + 9 \<and>
         (\<forall>t\<in>#running s. task_url t = base \<or> is_valid_url e c (task_url t) = Some True)"
proof (intro conjI ballI impI)
  note f = WebCrawler_init_fields[OF assms(1)]
  note inv = crawl_invariants[OF assms]
  have held: "url = base \<or> is_valid_url e c url = Some True"
    if "url \<in> insert base (all_urls (crawler s))" for url
    using that inv(2) unfolding eligible_inv_def by blast
  have valid: "url = base \<or> is_valid_url e c url = Some True"
    if "url \<in> visited_urls (crawler s)" for url
  proof -
    from inv(1) f that have "url \<in> insert base (all_urls (crawler s))"
      unfolding discovered_inv_def by blast
    then show ?thesis by (rule held)
  qed
  show "int (card (visited_urls (crawler s))) \<le> max 0 mp + 9"
    using inv(3) f unfolding budget_inv_def by linarith
  show "task_url t = base \<or> is_valid_url e c (task_url t) = Some True" if "t \<in># running s" for t
  proof -
    from inv(1) that have "task_within (base_url c) (all_urls (crawler s)) t"
      unfolding discovered_inv_def by blast
    with f have "task_url t \<in> insert base (all_urls (crawler s))"
      by (simp add: task_within_def)
    then show ?thesis by (rule held)
  qed
  fix url assume v: "url \<in> visited_urls (crawler s)"
  from valid[OF v] show "url = base \<or> is_valid_url e c url = Some True" .
  show "\<exists>parsed. urlparse e url = Some parsed \<and> netloc parsed = domain c"
  proof (cases "url = base")
    case True
    with f show ?thesis by blast
  next
    case False
    with valid[OF v] show ?thesis by (blast dest: is_valid_url_TrueD(1))
  qed
  assume "url \<noteq> base"
  with valid[OF v] have "\<not> list_ex (\<lambda>ext. endswith url ext) filtered_extensions"
    by (blast dest: is_valid_url_TrueD(2))
  then show "\<not> list_ex (\<lambda>ext. endswith url ext) [''.pdf'', ''.jpg'', ''.png'', ''.gif'', ''.css'', ''.js'']"
    unfolding filtered_extensions_def .
qed

theorem expanded_urls_eligible_and_bounded_witness:
  "run crawl_env home_run (crawl_start home_crawler None) = Some home_final \<and>
   ''http://example.com/a'' \<in> visited_urls (crawler home_final) \<and>
   is_valid_url crawl_env home_crawler ''http://example.com/a'' = Some True \<and>
   (\<exists>parsed. urlparse crawl_env ''http://example.com/a'' = Some parsed \<and>
      netloc parsed = domain home_crawler) \<and>
   \<not> list_ex (\<lambda>ext. endswith ''http://example.com/a'' ext)
       [''.pdf'', ''.jpg'', ''.png'', ''.gif'', ''.css'', ''.js''] \<and>
   int (card (visited_urls (crawler home_final))) \<le> max 0 500 + 9 \<and>
   run crawl_env tight_run (crawl_start tight_crawler None) = Some tight_state \<and>
   max_pages tight_crawler = 2 \<and>
   card (visited_urls (crawler tight_state)) = 3 \<and>
   int (card (visited_urls (crawler tight_state))) \<le> max 0 2 + 9 \<and>
   Scanning ''http://example.com/b'' [] {} \<in># running tight_state \<and>
   is_valid_url crawl_env tight_crawler ''http://example.com/b'' = Some True"
proof -
  note t = expanded_urls_eligible_and_bounded[OF home_init home_run_final[of None]]
  note u = expanded_urls_eligible_and_bounded[OF tight_init tight_run_state]
  have v: "''http://example.com/a'' \<in> visited_urls (crawler home_final)"
    by (simp add: home_final_def home_crawler_def)
  have n: "''http://example.com/a'' \<noteq> ''http://example.com/''" by simp
  from bspec[OF t[THEN conjunct1] v]
  have 1: "is_valid_url crawl_env home_crawler ''http://example.com/a'' = Some True"
    by simp
  note 2 = bspec[OF t[THEN conjunct2, THEN conjunct1] v]
  note 3 = bspec[OF t[THEN conjunct2, THEN conjunct2, THEN conjunct1] v, THEN mp, OF n]
  note 4 = t[THEN conjunct2, THEN conjunct2, THEN conjunct2, THEN conjunct1]
  have 5: "max_pages tight_crawler = 2" by (simp add: tight_crawler_def)
  have 6: "card (visited_urls (crawler tight_state)) = 3"
    by (simp add: tight_state_def tight_crawler_def)
  note 7 = u[THEN conjunct2, THEN conjunct2, THEN conjunct2, THEN conjunct1]
  have 8: "Scanning ''http://example.com/b'' [] {} \<in># running tight_state"
    by (simp add: tight_state_def)
  from bspec[OF u[THEN conjunct2, THEN conjunct2, THEN conjunct2, THEN conjunct2] 8]
  have 9: "is_valid_url crawl_env tight_crawler ''http://example.com/b'' = Some True"
    by simp
  show ?thesis
    by (rule conjI[OF home_run_final conjI[OF v conjI[OF 1 conjI[OF 2 conjI[OF 3 conjI[OF 4
          conjI[OF tight_run_state conjI[OF 5 conjI[OF 6 conjI[OF 7 conjI[OF 8 9]]]]]]]]]]])
qed

text \<open>
  C5 as stated fails for the start URL, which no test of the extension ever sees: a start
  URL that ends in \<open>.pdf\<close> is expanded, though \<open>is_valid_url\<close> rejects it.
\<close>

theorem start_url_filtered_extension_counterexample:
  "WebCrawler_init crawl_env ''http://example.com/report.pdf'' ''out.txt'' 10 500 = Some pdf_crawler \<and>
   run crawl_env pdf_run (crawl_start pdf_crawler None) = Some pdf_final \<and>
   ''http://example.com/report.pdf'' \<in> visited_urls (crawler pdf_final) \<and>
   endswith ''http://example.com/report.pdf'' ''.pdf'' \<and>
   is_valid_url crawl_env pdf_crawler ''http://example.com/report.pdf'' = Some False"
proof -
  have 1: "''http://example.com/report.pdf'' \<in> visited_urls (crawler pdf_final)"
    by (simp add: pdf_final_def pdf_crawler_def)
  have 2: "endswith ''http://example.com/report.pdf'' ''.pdf''"
    by (simp add: eval_simps)
  have 3: "is_valid_url crawl_env pdf_crawler ''http://example.com/report.pdf'' = Some False"
    by (simp add: crawl_simps pdf_crawler_def)
  show ?thesis by (intro conjI pdf_init pdf_run_final 1 2 3)
qed



end
